theory Spec2Isabelle
  imports Main "HOL-Library.Word" "HOL-Library.Char_ord" "HOL-Library.List_Lexorder"
begin

section \<open>Tokens\<close>

text \<open>
  \<^verbatim>\<open>enum class TokenType\<close> and \<^verbatim>\<open>struct Token\<close> of ConfigLanguageTransformer.cpp.
  The fields \<^verbatim>\<open>type\<close>, \<^verbatim>\<open>value\<close>, \<^verbatim>\<open>line\<close>, \<^verbatim>\<open>column\<close> of a token carry the
  prefix \<open>t\<close>, since the lexer has fields \<^verbatim>\<open>line\<close> and \<^verbatim>\<open>column\<close> of its own.
\<close>

datatype TokenType =
  NUMBER | STRING | IDENTIFIER | LBRACE | RBRACE | LBRACKET | RBRACKET | LPAREN | RPAREN
  | HASH | EQUALS | QUESTION | GLOBAL | EOF_TOKEN | INVALID

record Token =
  ttype :: TokenType
  tvalue :: string
  tline :: int
  tcolumn :: int

section \<open>Character classes\<close>

text \<open>
  The \<^verbatim>\<open><cctype>\<close> predicates in the "C" locale, on bytes: a byte from 0x80 on is in no
  class. (\<^verbatim>\<open>main\<close> asks for the locale \<^verbatim>\<open>RU\<close>; where none of that name is installed the
  call changes nothing.) \<^verbatim>\<open>isHexDigit\<close> is the lexer's own member function.
\<close>

definition isspace :: "char \<Rightarrow> bool" where
  "isspace c \<longleftrightarrow> c = CHR '' '' \<or> (CHR 0x09 \<le> c \<and> c \<le> CHR 0x0D)"

definition isdigit :: "char \<Rightarrow> bool" where
  "isdigit c \<longleftrightarrow> CHR ''0'' \<le> c \<and> c \<le> CHR ''9''"

definition isalpha :: "char \<Rightarrow> bool" where
  "isalpha c \<longleftrightarrow> (CHR ''a'' \<le> c \<and> c \<le> CHR ''z'') \<or> (CHR ''A'' \<le> c \<and> c \<le> CHR ''Z'')"

definition isalnum :: "char \<Rightarrow> bool" where
  "isalnum c \<longleftrightarrow> isalpha c \<or> isdigit c"

definition isHexDigit :: "char \<Rightarrow> bool" where
  "isHexDigit c \<longleftrightarrow>
     isdigit c \<or> (CHR ''a'' \<le> c \<and> c \<le> CHR ''f'') \<or> (CHR ''A'' \<le> c \<and> c \<le> CHR ''F'')"

section \<open>The lexer\<close>

record Lexer =
  input :: string
  position :: nat
  line :: int
  column :: int

definition Lexer_new :: "string \<Rightarrow> Lexer" where
  "Lexer_new text = \<lparr>input = text, position = 0, line = 1, column = 1\<rparr>"

definition peek :: "Lexer \<Rightarrow> char" where
  "peek l = (if position l < length (input l) then input l ! position l else CHR 0x00)"

text \<open>
  \<^verbatim>\<open>advance\<close> returns the character and the lexer after it; on \<^verbatim>\<open>'\0'\<close> nothing moves.
  \<^verbatim>\<open>line\<close> and \<^verbatim>\<open>column\<close> are C++ \<^verbatim>\<open>int\<close>s and unbounded integers here: the two agree
  up to 2^31 - 1 lines or columns, beyond which the increment in C++ is undefined. Nothing
  branches on them.
\<close>

definition advance :: "Lexer \<Rightarrow> char \<times> Lexer" where
  "advance l =
     (let c = peek l in
      if c \<noteq> CHR 0x00 then
        (c, if c = CHR 0x0A
            then l\<lparr>position := position l + 1, line := line l + 1, column := 1\<rparr>
            else l\<lparr>position := position l + 1, column := column l + 1\<rparr>)
      else (c, l))"

definition remaining :: "Lexer \<Rightarrow> nat" where
  "remaining l = length (input l) - position l"

lemma advance_remaining:
  "position l < length (input l) \<Longrightarrow> peek l \<noteq> CHR 0x00 \<Longrightarrow>
     remaining (snd (advance l)) < remaining l"
  by (simp add: advance_def remaining_def Let_def)

lemma advance_input [simp]: "input (snd (advance l)) = input l"
  by (simp add: advance_def Let_def)

lemma advance_fst [simp]: "fst (advance l) = peek l"
  by (simp add: advance_def Let_def)

lemma isspace_not_nul: "isspace c \<Longrightarrow> c \<noteq> CHR 0x00"
  by (auto simp: isspace_def)

lemma isHexDigit_not_nul: "isHexDigit c \<Longrightarrow> c \<noteq> CHR 0x00"
  by (auto simp: isHexDigit_def isdigit_def)

lemma isalnum_not_nul: "isalnum c \<Longrightarrow> c \<noteq> CHR 0x00"
  by (auto simp: isalnum_def isalpha_def isdigit_def)

function skipWhitespace :: "Lexer \<Rightarrow> Lexer" where
  "skipWhitespace l =
     (if position l < length (input l) \<and> isspace (peek l)
      then skipWhitespace (snd (advance l)) else l)"
  by pat_completeness auto
termination
  by (relation "measure remaining") (simp_all add: advance_remaining isspace_not_nul)

text \<open>The three accumulating loops of \<^verbatim>\<open>nextToken\<close>: hex digits, identifier, string body.\<close>

function readNumber :: "string \<Rightarrow> Lexer \<Rightarrow> string \<times> Lexer" where
  "readNumber number l =
     (if position l < length (input l) \<and> isHexDigit (peek l)
      then readNumber (number @ [fst (advance l)]) (snd (advance l)) else (number, l))"
  by pat_completeness auto
termination
  by (relation "measure (\<lambda>(n, l). remaining l)")
    (simp_all add: advance_remaining isHexDigit_not_nul)

function readIdentifier :: "string \<Rightarrow> Lexer \<Rightarrow> string \<times> Lexer" where
  "readIdentifier identifier l =
     (if position l < length (input l) \<and> (isalnum (peek l) \<or> peek l = CHR ''_'')
      then readIdentifier (identifier @ [fst (advance l)]) (snd (advance l))
      else (identifier, l))"
  by pat_completeness auto
termination
  by (relation "measure (\<lambda>(n, l). remaining l)")
    (auto simp: advance_remaining isalnum_not_nul)

function readString :: "string \<Rightarrow> Lexer \<Rightarrow> string \<times> Lexer" where
  "readString str l =
     (if position l < length (input l) \<and> peek l \<noteq> CHR 0x22 \<and> peek l \<noteq> CHR 0x00
      then readString (str @ [fst (advance l)]) (snd (advance l)) else (str, l))"
  by pat_completeness auto
termination
  by (relation "measure (\<lambda>(n, l). remaining l)") (simp_all add: advance_remaining)

declare skipWhitespace.simps [simp del] readNumber.simps [simp del]
  readIdentifier.simps [simp del] readString.simps [simp del]

definition single :: "TokenType \<Rightarrow> char \<Rightarrow> int \<Rightarrow> int \<Rightarrow> Lexer \<Rightarrow> Token \<times> Lexer" where
  "single t c startLine startColumn l =
     (\<lparr>ttype = t, tvalue = [c], tline = startLine, tcolumn = startColumn\<rparr>, snd (advance l))"

definition nextToken :: "Lexer \<Rightarrow> Token \<times> Lexer" where
  "nextToken l0 =
     (let l = skipWhitespace l0 in
      if position l \<ge> length (input l) then
        (\<lparr>ttype = EOF_TOKEN, tvalue = [], tline = line l, tcolumn = column l\<rparr>, l)
      else
        let current = peek l; startLine = line l; startColumn = column l in
        if current = CHR ''0'' \<and> position l + 1 < length (input l) \<and>
           (input l ! (position l + 1) = CHR ''x'' \<or> input l ! (position l + 1) = CHR ''X'')
        then
          (let l1 = snd (advance l); l2 = snd (advance l1);
               (number, l3) = readNumber [] l2
           in (\<lparr>ttype = NUMBER, tvalue = number, tline = startLine, tcolumn = startColumn\<rparr>,
               l3))
        else if isalpha current then
          (let (identifier, l1) = readIdentifier [] l in
           if identifier = ''global'' then
             (\<lparr>ttype = GLOBAL, tvalue = identifier, tline = startLine,
               tcolumn = startColumn\<rparr>, l1)
           else if identifier = ''true'' \<or> identifier = ''false'' then
             (\<lparr>ttype = STRING, tvalue = identifier, tline = startLine,
               tcolumn = startColumn\<rparr>, l1)
           else
             (\<lparr>ttype = IDENTIFIER, tvalue = identifier, tline = startLine,
               tcolumn = startColumn\<rparr>, l1))
        else if current = CHR 0x22 then
          (let l1 = snd (advance l); (str, l2) = readString [] l1;
               l3 = (if peek l2 = CHR 0x22 then snd (advance l2) else l2)
           in (\<lparr>ttype = STRING, tvalue = str, tline = startLine, tcolumn = startColumn\<rparr>,
               l3))
        else if current = CHR ''{'' then single LBRACE current startLine startColumn l
        else if current = CHR ''}'' then single RBRACE current startLine startColumn l
        else if current = CHR ''['' then single LBRACKET current startLine startColumn l
        else if current = CHR '']'' then single RBRACKET current startLine startColumn l
        else if current = CHR ''('' then single LPAREN current startLine startColumn l
        else if current = CHR '')'' then single RPAREN current startLine startColumn l
        else if current = CHR ''#'' then single HASH current startLine startColumn l
        else if current = CHR ''='' then single EQUALS current startLine startColumn l
        else if current = CHR ''?'' then single QUESTION current startLine startColumn l
        else single INVALID current startLine startColumn l)"

subsection \<open>The lexer never moves backwards\<close>

lemma advance_remaining_le: "remaining (snd (advance l)) \<le> remaining l"
  by (auto simp: advance_def remaining_def Let_def)

lemma skipWhitespace_input [simp]: "input (skipWhitespace l) = input l"
  by (induction l rule: skipWhitespace.induct) (subst skipWhitespace.simps, simp)

lemma skipWhitespace_remaining: "remaining (skipWhitespace l) \<le> remaining l"
proof (induction l rule: skipWhitespace.induct)
  case (1 l)
  show ?case
  proof (cases "position l < length (input l) \<and> isspace (peek l)")
    case True
    then have "remaining (skipWhitespace (snd (advance l))) \<le> remaining (snd (advance l))"
      using 1 by simp
    also have "\<dots> \<le> remaining l" by (rule advance_remaining_le)
    finally show ?thesis using True by (subst skipWhitespace.simps) auto
  next
    case False
    then show ?thesis by (subst skipWhitespace.simps) auto
  qed
qed

lemma readNumber_input [simp]: "input (snd (readNumber n l)) = input l"
  by (induction n l rule: readNumber.induct) (subst readNumber.simps, simp)

lemma readIdentifier_input [simp]: "input (snd (readIdentifier n l)) = input l"
  by (induction n l rule: readIdentifier.induct) (subst readIdentifier.simps, simp)

lemma readString_input [simp]: "input (snd (readString n l)) = input l"
  by (induction n l rule: readString.induct) (subst readString.simps, simp)

lemma readNumber_remaining: "remaining (snd (readNumber n l)) \<le> remaining l"
proof (induction n l rule: readNumber.induct)
  case (1 n l)
  show ?case
  proof (cases "position l < length (input l) \<and> isHexDigit (peek l)")
    case True
    then have "remaining (snd (readNumber (n @ [fst (advance l)]) (snd (advance l))))
        \<le> remaining (snd (advance l))"
      using 1 by simp
    also have "\<dots> \<le> remaining l" by (rule advance_remaining_le)
    finally show ?thesis using True by (subst readNumber.simps) auto
  next
    case False
    then show ?thesis by (subst readNumber.simps) auto
  qed
qed

lemma readIdentifier_remaining: "remaining (snd (readIdentifier n l)) \<le> remaining l"
proof (induction n l rule: readIdentifier.induct)
  case (1 n l)
  show ?case
  proof (cases "position l < length (input l) \<and> (isalnum (peek l) \<or> peek l = CHR ''_'')")
    case True
    then have "remaining (snd (readIdentifier (n @ [fst (advance l)]) (snd (advance l))))
        \<le> remaining (snd (advance l))"
      using 1 by simp
    also have "\<dots> \<le> remaining l" by (rule advance_remaining_le)
    finally show ?thesis using True by (subst readIdentifier.simps) auto
  next
    case False
    then show ?thesis by (subst readIdentifier.simps) auto
  qed
qed

lemma readString_remaining: "remaining (snd (readString n l)) \<le> remaining l"
proof (induction n l rule: readString.induct)
  case (1 n l)
  show ?case
  proof (cases "position l < length (input l) \<and> peek l \<noteq> CHR 0x22 \<and> peek l \<noteq> CHR 0x00")
    case True
    then have "remaining (snd (readString (n @ [fst (advance l)]) (snd (advance l))))
        \<le> remaining (snd (advance l))"
      using 1 by simp
    also have "\<dots> \<le> remaining l" by (rule advance_remaining_le)
    finally show ?thesis using True by (subst readString.simps) auto
  next
    case False
    then show ?thesis by (subst readString.simps) auto
  qed
qed

lemma readIdentifier_progress:
  assumes "position l < length (input l)" "isalpha (peek l)"
  shows "remaining (snd (readIdentifier n l)) < remaining l"
proof -
  have nz: "peek l \<noteq> CHR 0x00" using assms(2) by (auto simp: isalpha_def)
  have "remaining (snd (readIdentifier (n @ [fst (advance l)]) (snd (advance l))))
      \<le> remaining (snd (advance l))"
    by (rule readIdentifier_remaining)
  also have "\<dots> < remaining l" using assms(1) nz by (rule advance_remaining)
  finally show ?thesis
    using assms by (subst readIdentifier.simps) (simp add: isalnum_def)
qed


lemma rem_advance: "remaining l1 \<le> n \<Longrightarrow> remaining (snd (advance l1)) \<le> n"
  using advance_remaining_le [of l1] by simp
lemma rem_readNumber: "remaining l1 \<le> n \<Longrightarrow> remaining (snd (readNumber a l1)) \<le> n"
  using readNumber_remaining [of a l1] by simp
lemma rem_readIdentifier: "remaining l1 \<le> n \<Longrightarrow> remaining (snd (readIdentifier a l1)) \<le> n"
  using readIdentifier_remaining [of a l1] by simp
lemma rem_readString: "remaining l1 \<le> n \<Longrightarrow> remaining (snd (readString a l1)) \<le> n"
  using readString_remaining [of a l1] by simp

lemmas rem_le = rem_advance rem_readNumber rem_readIdentifier rem_readString

lemma nextToken_input [simp]: "input (snd (nextToken l)) = input l"
  by (simp add: nextToken_def Let_def single_def case_prod_beta)

lemma nextToken_remaining_le: "remaining (snd (nextToken l)) \<le> remaining l"
  by (simp add: nextToken_def Let_def single_def case_prod_beta rem_le skipWhitespace_remaining)


lemma srem_advance: "remaining l1 < n \<Longrightarrow> remaining (snd (advance l1)) < n"
  using advance_remaining_le [of l1] by simp
lemma srem_readNumber: "remaining l1 < n \<Longrightarrow> remaining (snd (readNumber a l1)) < n"
  using readNumber_remaining [of a l1] by simp
lemma srem_readString: "remaining l1 < n \<Longrightarrow> remaining (snd (readString a l1)) < n"
  using readString_remaining [of a l1] by simp

text \<open>
  The branches of \<^verbatim>\<open>nextToken\<close>, one equation each. \<open>numberStart\<close> is the test of the
  first \<^verbatim>\<open>if\<close>, \<open>wordType\<close> the three returns of the identifier branch, \<open>charType\<close>
  the \<^verbatim>\<open>switch\<close> with the fall-through to \<^verbatim>\<open>INVALID\<close>.
\<close>

definition numberStart :: "Lexer \<Rightarrow> bool" where
  "numberStart l \<longleftrightarrow>
     peek l = CHR ''0'' \<and> position l + 1 < length (input l) \<and>
     (input l ! (position l + 1) = CHR ''x'' \<or> input l ! (position l + 1) = CHR ''X'')"

definition wordType :: "string \<Rightarrow> TokenType" where
  "wordType identifier =
     (if identifier = ''global'' then GLOBAL
      else if identifier = ''true'' \<or> identifier = ''false'' then STRING else IDENTIFIER)"

definition charType :: "char \<Rightarrow> TokenType" where
  "charType c =
     (if c = CHR ''{'' then LBRACE else if c = CHR ''}'' then RBRACE
      else if c = CHR ''['' then LBRACKET else if c = CHR '']'' then RBRACKET
      else if c = CHR ''('' then LPAREN else if c = CHR '')'' then RPAREN
      else if c = CHR ''#'' then HASH else if c = CHR ''='' then EQUALS
      else if c = CHR ''?'' then QUESTION else INVALID)"

lemma nextToken_eof:
  "\<not> position (skipWhitespace l) < length (input l) \<Longrightarrow>
   nextToken l =
     (\<lparr>ttype = EOF_TOKEN, tvalue = [], tline = line (skipWhitespace l),
       tcolumn = column (skipWhitespace l)\<rparr>, skipWhitespace l)"
  by (simp add: nextToken_def Let_def)

lemma nextToken_number:
  "position (skipWhitespace l) < length (input l) \<Longrightarrow> numberStart (skipWhitespace l) \<Longrightarrow>
   nextToken l =
     (\<lparr>ttype = NUMBER,
       tvalue = fst (readNumber [] (snd (advance (snd (advance (skipWhitespace l)))))),
       tline = line (skipWhitespace l), tcolumn = column (skipWhitespace l)\<rparr>,
      snd (readNumber [] (snd (advance (snd (advance (skipWhitespace l)))))))"
  by (simp add: nextToken_def Let_def numberStart_def case_prod_beta)

lemma nextToken_word:
  "position (skipWhitespace l) < length (input l) \<Longrightarrow> \<not> numberStart (skipWhitespace l) \<Longrightarrow>
   isalpha (peek (skipWhitespace l)) \<Longrightarrow>
   nextToken l =
     (\<lparr>ttype = wordType (fst (readIdentifier [] (skipWhitespace l))),
       tvalue = fst (readIdentifier [] (skipWhitespace l)),
       tline = line (skipWhitespace l), tcolumn = column (skipWhitespace l)\<rparr>,
      snd (readIdentifier [] (skipWhitespace l)))"
  by (simp add: nextToken_def Let_def numberStart_def case_prod_beta wordType_def)

lemma isalpha_simps [simp]:
  "\<not> isalpha (CHR 0x22)" "\<not> isalpha (CHR ''0'')" "\<not> isalpha (CHR 0x00)"
  by (simp_all add: isalpha_def)

lemma nextToken_string:
  "position (skipWhitespace l) < length (input l) \<Longrightarrow> peek (skipWhitespace l) = CHR 0x22 \<Longrightarrow>
   nextToken l =
     (\<lparr>ttype = STRING, tvalue = fst (readString [] (snd (advance (skipWhitespace l)))),
       tline = line (skipWhitespace l), tcolumn = column (skipWhitespace l)\<rparr>,
      if peek (snd (readString [] (snd (advance (skipWhitespace l))))) = CHR 0x22
      then snd (advance (snd (readString [] (snd (advance (skipWhitespace l))))))
      else snd (readString [] (snd (advance (skipWhitespace l)))))"
  by (simp add: nextToken_def Let_def case_prod_beta)

lemma nextToken_char:
  "position (skipWhitespace l) < length (input l) \<Longrightarrow> \<not> numberStart (skipWhitespace l) \<Longrightarrow>
   \<not> isalpha (peek (skipWhitespace l)) \<Longrightarrow> peek (skipWhitespace l) \<noteq> CHR 0x22 \<Longrightarrow>
   nextToken l =
     (\<lparr>ttype = charType (peek (skipWhitespace l)), tvalue = [peek (skipWhitespace l)],
       tline = line (skipWhitespace l), tcolumn = column (skipWhitespace l)\<rparr>,
      snd (advance (skipWhitespace l)))"
  by (auto simp: nextToken_def Let_def numberStart_def single_def charType_def)

lemma charType_INVALID_nul [simp]: "charType (CHR 0x00) = INVALID"
  by (simp add: charType_def)

lemma nextToken_progress:
  assumes "ttype (fst (nextToken l)) \<noteq> EOF_TOKEN" "ttype (fst (nextToken l)) \<noteq> INVALID"
  shows "remaining (snd (nextToken l)) < remaining l"
proof -
  define l' where "l' = skipWhitespace l"
  have le: "remaining l' \<le> remaining l" by (simp add: l'_def skipWhitespace_remaining)
  have pos: "position l' < length (input l')"
  proof (rule ccontr)
    assume "\<not> position l' < length (input l')"
    then have "ttype (fst (nextToken l)) = EOF_TOKEN"
      by (simp add: nextToken_eof l'_def)
    then show False using assms(1) by simp
  qed
  have "remaining (snd (nextToken l)) < remaining l'"
  proof (cases "numberStart l'")
    case True
    then have "peek l' \<noteq> CHR 0x00" by (simp add: numberStart_def)
    then have "remaining (snd (advance l')) < remaining l'"
      using pos by (simp add: advance_remaining)
    then have "remaining (snd (readNumber [] (snd (advance (snd (advance l')))))) < remaining l'"
      by (simp add: srem_readNumber srem_advance)
    then show ?thesis using nextToken_number [of l] pos True by (simp add: l'_def)
  next
    case ns: False
    show ?thesis
    proof (cases "isalpha (peek l')")
      case True
      then show ?thesis
        using nextToken_word [of l] pos ns readIdentifier_progress [of l' "[]"]
        by (simp add: l'_def)
    next
      case na: False
      show ?thesis
      proof (cases "peek l' = CHR 0x22")
        case True
        then have "remaining (snd (advance l')) < remaining l'"
          using pos by (simp add: advance_remaining)
        then have "remaining (snd (readString [] (snd (advance l')))) < remaining l'"
          by (rule srem_readString)
        then show ?thesis
          using nextToken_string [of l] pos True by (simp add: l'_def srem_advance)
      next
        case False
        then have "peek l' \<noteq> CHR 0x00"
          using assms(2) nextToken_char [of l] pos ns na by (auto simp: l'_def)
        then show ?thesis
          using nextToken_char [of l] pos ns na False by (simp add: l'_def advance_remaining)
      qed
    qed
  qed
  then show ?thesis using le by (simp add: l'_def)
qed

section \<open>The tree and its serializer\<close>

text \<open>
  A \<^verbatim>\<open>shared_ptr<ASTNode>\<close> is the node together with the address \<^verbatim>\<open>make_shared\<close> gave
  it, the first argument of every constructor: two handles denote the same instance iff
  they carry the same address. No node is modified once another node or the constant
  table holds it, so the node's content can travel with the handle.
\<close>

type_synonym addr = nat

datatype ASTNode =
  NumberNode addr "64 word"
  | StringNode addr string
  | BoolNode addr bool
  | ArrayNode addr "ASTNode list"
  | ObjectNode addr "(string \<times> ASTNode) list"

text \<open>
  \<^verbatim>\<open>std::map<string, shared_ptr<ASTNode>>\<close>: the entries in the order the map iterates
  them, ascending by \<^verbatim>\<open>std::less<string>\<close> (bytes compared lexicographically).
  \<open>map_assign k v m\<close> is \<^verbatim>\<open>m[k] = v\<close>; \<^verbatim>\<open>m.find(k)\<close> is \<^const>\<open>map_of\<close>.
\<close>

fun map_assign :: "string \<Rightarrow> 'v \<Rightarrow> (string \<times> 'v) list \<Rightarrow> (string \<times> 'v) list" where
  "map_assign k v [] = [(k, v)]"
| "map_assign k v ((k', v') # m) =
     (if k < k' then (k, v) # (k', v') # m
      else if k' < k then (k', v') # map_assign k v m
      else (k, v) # m)"

text \<open>\<^verbatim>\<open>std::to_string(long long)\<close>: decimal digits, a minus sign when negative.\<close>

function digits :: "int \<Rightarrow> string" where
  "digits n =
     (if n < 10 then [''0123456789'' ! nat n]
      else digits (n div 10) @ [''0123456789'' ! nat (n mod 10)])"
  by pat_completeness auto
termination
  by (relation "measure nat") simp_all

declare digits.simps [simp del]

definition to_string :: "int \<Rightarrow> string" where
  "to_string i = (if i < 0 then CHR ''-'' # digits (- i) else digits i)"

text \<open>The loops of \<^verbatim>\<open>toJSON\<close> put the separator before every piece but the first.\<close>

fun joined :: "string \<Rightarrow> string list \<Rightarrow> string" where
  "joined sep [] = []"
| "joined sep [x] = x"
| "joined sep (x # y # ys) = x @ sep @ joined sep (y # ys)"

fun toJSON :: "ASTNode \<Rightarrow> nat \<Rightarrow> string" where
  "toJSON (NumberNode a v) indent = to_string (sint v)"
| "toJSON (StringNode a v) indent = [CHR 0x22] @ v @ [CHR 0x22]"
| "toJSON (BoolNode a v) indent = (if v then ''true'' else ''false'')"
| "toJSON (ArrayNode a elements) indent =
     ''['' @ joined '', '' (map (\<lambda>e. toJSON e 0) elements) @ '']''"
| "toJSON (ObjectNode a properties) indent =
     (if properties = [] then ''{}''
      else ''{'' @ [CHR 0x0A] @
        joined ('','' @ [CHR 0x0A])
          (map (\<lambda>prop. replicate (indent + 2) CHR '' '' @ [CHR 0x22] @ fst prop @ [CHR 0x22] @
                  '': '' @ toJSON (snd prop) (indent + 2)) properties) @
        [CHR 0x0A] @ replicate indent CHR '' '' @ ''}'')"

section \<open>Errors\<close>

text \<open>
  One constructor for each \<^verbatim>\<open>throw\<close> of the parser, with the data its message carries,
  and two for the exceptions of \<^verbatim>\<open>std::stoll\<close>:
  \<^item> \<open>SyntaxError line column expected got\<close>: \<^verbatim>\<open>eat\<close>;
  \<^item> \<open>UnknownConstant name\<close>: \<^verbatim>\<open>parseValue\<close>, constant reference;
  \<^item> \<open>UnexpectedValueToken text line\<close>: \<^verbatim>\<open>parseValue\<close>, last line;
  \<^item> \<open>ExpectedIdentifier\<close>: \<^verbatim>\<open>parseObject\<close>;
  \<^item> \<open>UnexpectedToken text line\<close>: \<^verbatim>\<open>parse\<close>;
  \<^item> \<open>InvalidArgument\<close>: \<^verbatim>\<open>std::invalid_argument\<close>, no conversion could be performed;
  \<^item> \<open>OutOfRange\<close>: \<^verbatim>\<open>std::out_of_range\<close>, the value does not fit a \<^verbatim>\<open>long long\<close>.
\<close>

datatype error =
  SyntaxError int int TokenType TokenType
  | UnknownConstant string
  | UnexpectedValueToken string int
  | ExpectedIdentifier
  | UnexpectedToken string int
  | InvalidArgument
  | OutOfRange

section \<open>Hexadecimal decoding\<close>

definition hexDigitValue :: "char \<Rightarrow> int" where
  "hexDigitValue c =
     (if isdigit c then int (of_char c) - 48
      else if CHR ''a'' \<le> c \<and> c \<le> CHR ''f'' then int (of_char c) - 87
      else int (of_char c) - 55)"

definition hexValue :: "string \<Rightarrow> int" where
  "hexValue ds = foldl (\<lambda>acc c. 16 * acc + hexDigitValue c) 0 ds"

text \<open>
  \<^verbatim>\<open>std::stoll(str, nullptr, 16)\<close>, that is \<^verbatim>\<open>strtoll\<close> in base 16 with its two failures
  turned into exceptions: leading white space, an optional sign, an optional \<^verbatim>\<open>0x\<close>
  before a digit, then the longest run of hexadecimal digits.
\<close>

definition stoll16 :: "string \<Rightarrow> error + 64 word" where
  "stoll16 str =
     (let s1 = dropWhile isspace str;
          neg = (s1 \<noteq> [] \<and> hd s1 = CHR ''-'');
          s2 = (if s1 \<noteq> [] \<and> (hd s1 = CHR ''-'' \<or> hd s1 = CHR ''+'') then tl s1 else s1);
          s3 = (case s2 of
                  z # x # d # r \<Rightarrow>
                    if z = CHR ''0'' \<and> (x = CHR ''x'' \<or> x = CHR ''X'') \<and> isHexDigit d
                    then d # r else s2
                | _ \<Rightarrow> s2);
          ds = takeWhile isHexDigit s3
      in if ds = [] then Inl InvalidArgument
         else if neg then
           (if hexValue ds > 2 ^ 63 then Inl OutOfRange
            else Inr (word_of_int (- hexValue ds)))
         else
           (if hexValue ds > 2 ^ 63 - 1 then Inl OutOfRange
            else Inr (word_of_int (hexValue ds))))"

section \<open>The parser\<close>

text \<open>
  The parser's members, and \<open>allocated\<close>: the number of nodes \<^verbatim>\<open>make_shared\<close> has
  created so far, which is the address of the next one.
\<close>

record Parser =
  lexer :: Lexer
  currentToken :: Token
  constants :: "(string \<times> ASTNode) list"
  allocated :: addr

definition Parser_new :: "Lexer \<Rightarrow> Parser" where
  "Parser_new l =
     \<lparr>lexer = snd (nextToken l), currentToken = fst (nextToken l), constants = [],
      allocated = 0\<rparr>"

definition eat :: "TokenType \<Rightarrow> Parser \<Rightarrow> error + Parser" where
  "eat expected p =
     (if ttype (currentToken p) = expected then
        Inr (p\<lparr>lexer := snd (nextToken (lexer p)), currentToken := fst (nextToken (lexer p))\<rparr>)
      else
        Inl (SyntaxError (tline (currentToken p)) (tcolumn (currentToken p)) expected
               (ttype (currentToken p))))"

text \<open>
  What is left to read: the characters after the lexer's position, and the token in hand
  unless it is the end or \<^verbatim>\<open>INVALID\<close> (the one token the lexer can return without
  moving, on a NUL byte). Every successful \<^verbatim>\<open>eat\<close> the parser makes lowers it.
\<close>

definition weight :: "Parser \<Rightarrow> nat" where
  "weight p =
     remaining (lexer p) +
     (if ttype (currentToken p) = EOF_TOKEN \<or> ttype (currentToken p) = INVALID then 0 else 1)"

lemma weight_allocated [simp]: "weight (p\<lparr>allocated := a\<rparr>) = weight p"
  by (simp add: weight_def)

lemma eat_weight:
  assumes "eat expected p = Inr p'" "expected \<noteq> EOF_TOKEN" "expected \<noteq> INVALID"
  shows "weight p' < weight p"
proof -
  have ty: "ttype (currentToken p) = expected" and
    p': "p' = p\<lparr>lexer := snd (nextToken (lexer p)), currentToken := fst (nextToken (lexer p))\<rparr>"
    using assms(1) by (auto simp: eat_def split: if_splits)
  show ?thesis
  proof (cases "ttype (fst (nextToken (lexer p))) = EOF_TOKEN \<or>
      ttype (fst (nextToken (lexer p))) = INVALID")
    case True
    then show ?thesis
      using nextToken_remaining_le [of "lexer p"] ty assms(2,3) by (auto simp: weight_def p')
  next
    case False
    then show ?thesis
      using nextToken_progress [of "lexer p"] ty assms(2,3) by (auto simp: weight_def p')
  qed
qed

lemma eat_type: "eat expected p = Inr p' \<Longrightarrow> ttype (currentToken p) = expected"
  by (auto simp: eat_def split: if_splits)

text \<open>
  \<^verbatim>\<open>parseValue\<close> and \<^verbatim>\<open>parseObject\<close>, with their two \<^verbatim>\<open>while\<close> loops as
  \<open>parseElements\<close> (the array under construction and the parser) and \<open>parseProperties\<close>
  (the object's map and the parser). Every \<^verbatim>\<open>make_shared\<close> takes the next address, in
  the order the source allocates.
\<close>

function parseValue :: "Parser \<Rightarrow> error + (ASTNode \<times> Parser)"
  and parseElements :: "ASTNode list \<Rightarrow> Parser \<Rightarrow> error + (ASTNode list \<times> Parser)"
  and parseObject :: "Parser \<Rightarrow> error + (ASTNode \<times> Parser)"
  and parseProperties ::
    "(string \<times> ASTNode) list \<Rightarrow> Parser \<Rightarrow> error + ((string \<times> ASTNode) list \<times> Parser)"
where
  "parseValue p =
     (if ttype (currentToken p) = NUMBER then
        (case stoll16 (tvalue (currentToken p)) of
           Inl e \<Rightarrow> Inl e
         | Inr v \<Rightarrow>
             (case eat NUMBER (p\<lparr>allocated := allocated p + 1\<rparr>) of
                Inl e \<Rightarrow> Inl e
              | Inr p1 \<Rightarrow> Inr (NumberNode (allocated p) v, p1)))
      else if ttype (currentToken p) = STRING then
        (if tvalue (currentToken p) = ''true'' \<or> tvalue (currentToken p) = ''false'' then
           (case eat STRING (p\<lparr>allocated := allocated p + 1\<rparr>) of
              Inl e \<Rightarrow> Inl e
            | Inr p1 \<Rightarrow>
                Inr (BoolNode (allocated p) (tvalue (currentToken p) = ''true''), p1))
         else
           (case eat STRING (p\<lparr>allocated := allocated p + 1\<rparr>) of
              Inl e \<Rightarrow> Inl e
            | Inr p1 \<Rightarrow> Inr (StringNode (allocated p) (tvalue (currentToken p)), p1)))
      else if ttype (currentToken p) = HASH then
        (case eat HASH p of
           Inl e \<Rightarrow> Inl e
         | Inr p1 \<Rightarrow>
        (case eat LPAREN p1 of
           Inl e \<Rightarrow> Inl e
         | Inr p2 \<Rightarrow>
        (case parseElements [] (p2\<lparr>allocated := allocated p2 + 1\<rparr>) of
           Inl e \<Rightarrow> Inl e
         | Inr (elements, p3) \<Rightarrow>
        (case eat RPAREN p3 of
           Inl e \<Rightarrow> Inl e
         | Inr p4 \<Rightarrow> Inr (ArrayNode (allocated p2) elements, p4)))))
      else if ttype (currentToken p) = QUESTION then
        (case eat QUESTION p of
           Inl e \<Rightarrow> Inl e
         | Inr p1 \<Rightarrow>
        (case eat LBRACKET p1 of
           Inl e \<Rightarrow> Inl e
         | Inr p2 \<Rightarrow>
        (case eat IDENTIFIER p2 of
           Inl e \<Rightarrow> Inl e
         | Inr p3 \<Rightarrow>
        (case eat RBRACKET p3 of
           Inl e \<Rightarrow> Inl e
         | Inr p4 \<Rightarrow>
        (case map_of (constants p4) (tvalue (currentToken p2)) of
           None \<Rightarrow> Inl (UnknownConstant (tvalue (currentToken p2)))
         | Some node \<Rightarrow> Inr (node, p4))))))
      else if ttype (currentToken p) = LBRACE then parseObject p
      else Inl (UnexpectedValueToken (tvalue (currentToken p)) (tline (currentToken p))))"
| "parseElements elements p =
     (if ttype (currentToken p) \<noteq> RPAREN \<and> ttype (currentToken p) \<noteq> EOF_TOKEN then
        (case parseValue p of
           Inl e \<Rightarrow> Inl e
         | Inr (element, p1) \<Rightarrow> parseElements (elements @ [element]) p1)
      else Inr (elements, p))"
| "parseObject p =
     (case eat LBRACE (p\<lparr>allocated := allocated p + 1\<rparr>) of
        Inl e \<Rightarrow> Inl e
      | Inr p1 \<Rightarrow>
     (case parseProperties [] p1 of
        Inl e \<Rightarrow> Inl e
      | Inr (properties, p2) \<Rightarrow>
     (case eat RBRACE p2 of
        Inl e \<Rightarrow> Inl e
      | Inr p3 \<Rightarrow> Inr (ObjectNode (allocated p) properties, p3))))"
| "parseProperties properties p =
     (if ttype (currentToken p) \<noteq> RBRACE \<and> ttype (currentToken p) \<noteq> EOF_TOKEN then
        (if ttype (currentToken p) = IDENTIFIER then
           (case eat IDENTIFIER p of
              Inl e \<Rightarrow> Inl e
            | Inr p1 \<Rightarrow>
           (case eat EQUALS p1 of
              Inl e \<Rightarrow> Inl e
            | Inr p2 \<Rightarrow>
           (case parseValue p2 of
              Inl e \<Rightarrow> Inl e
            | Inr (v, p3) \<Rightarrow>
                parseProperties (map_assign (tvalue (currentToken p)) v properties) p3)))
         else Inl ExpectedIdentifier)
      else Inr (properties, p))"
  by pat_completeness auto


lemma parse_dom_weight:
  "parseValue_parseElements_parseObject_parseProperties_dom (Inl (Inl p)) \<Longrightarrow>
     (\<forall>v p'. parseValue p = Inr (v, p') \<longrightarrow> weight p' < weight p)"
  "parseValue_parseElements_parseObject_parseProperties_dom (Inl (Inr (es, q))) \<Longrightarrow>
     (\<forall>es' q'. parseElements es q = Inr (es', q') \<longrightarrow> weight q' \<le> weight q)"
  "parseValue_parseElements_parseObject_parseProperties_dom (Inr (Inl r)) \<Longrightarrow>
     (\<forall>v r'. parseObject r = Inr (v, r') \<longrightarrow> weight r' < weight r)"
  "parseValue_parseElements_parseObject_parseProperties_dom (Inr (Inr (ps, u))) \<Longrightarrow>
     (\<forall>ps' u'. parseProperties ps u = Inr (ps', u') \<longrightarrow> weight u' \<le> weight u)"
proof (induction p and es q and r and ps u
    rule: parseValue_parseElements_parseObject_parseProperties.pinduct)
  case (1 p)
  note eq = parseValue.psimps [OF 1(1)]
  show ?case
  proof (intro allI impI)
    fix v p'
    assume res: "parseValue p = Inr (v, p')"
    consider (num) "ttype (currentToken p) = NUMBER" | (str) "ttype (currentToken p) = STRING"
      | (hash) "ttype (currentToken p) = HASH" | (quest) "ttype (currentToken p) = QUESTION"
      | (lbrace) "ttype (currentToken p) = LBRACE"
      | (other) "ttype (currentToken p) \<notin> {NUMBER, STRING, HASH, QUESTION, LBRACE}"
      by auto
    then show "weight p' < weight p"
    proof cases
      case num
      then have "eat NUMBER (p\<lparr>allocated := allocated p + 1\<rparr>) = Inr p'"
        using res eq by (auto split: sum.splits)
      then show ?thesis using eat_weight by fastforce
    next
      case str
      then have "eat STRING (p\<lparr>allocated := allocated p + 1\<rparr>) = Inr p'"
        using res eq by (auto split: sum.splits if_splits)
      then show ?thesis using eat_weight by fastforce
    next
      case hash
      then obtain p1 p2 es p3 where
        e1: "eat HASH p = Inr p1" and e2: "eat LPAREN p1 = Inr p2" and
        e3: "parseElements [] (p2\<lparr>allocated := allocated p2 + 1\<rparr>) = Inr (es, p3)" and
        e4: "eat RPAREN p3 = Inr p'"
        using res eq by (auto split: sum.splits)
      have "weight p3 \<le> weight p2"
        using 1(2) [OF _ _ hash e1 e2] hash e3 by auto
      moreover have "weight p1 < weight p" "weight p2 < weight p1" "weight p' < weight p3"
        using e1 e2 e4 by (auto dest: eat_weight)
      ultimately show ?thesis by simp
    next
      case quest
      then obtain p1 p2 p3 where
        e1: "eat QUESTION p = Inr p1" and e2: "eat LBRACKET p1 = Inr p2" and
        e3: "eat IDENTIFIER p2 = Inr p3" and e4: "eat RBRACKET p3 = Inr p'"
        using res eq by (auto split: sum.splits option.splits)
      have "weight p1 < weight p" "weight p2 < weight p1" "weight p3 < weight p2"
        "weight p' < weight p3"
        using e1 e2 e3 e4 by (auto dest: eat_weight)
      then show ?thesis by simp
    next
      case lbrace
      then have "parseObject p = Inr (v, p')" using res eq by simp
      then show ?thesis using 1(3) lbrace by auto
    next
      case other
      then show ?thesis using res eq by auto
    qed
  qed
next
  case (2 elements p)
  note eq = parseElements.psimps [OF 2(1)]
  show ?case
  proof (intro allI impI)
    fix es' q'
    assume res: "parseElements elements p = Inr (es', q')"
    show "weight q' \<le> weight p"
    proof (cases "ttype (currentToken p) \<noteq> RPAREN \<and> ttype (currentToken p) \<noteq> EOF_TOKEN")
      case True
      then obtain e p1 where
        e1: "parseValue p = Inr (e, p1)" and
        e2: "parseElements (elements @ [e]) p1 = Inr (es', q')"
        using res eq by (auto split: sum.splits)
      have "weight p1 < weight p" using 2(2) [OF True] e1 by auto
      moreover have "weight q' \<le> weight p1" using 2(3) [OF True e1 refl] e2 by auto
      ultimately show ?thesis by simp
    next
      case False
      then show ?thesis using res eq by auto
    qed
  qed
next
  case (3 p)
  note eq = parseObject.psimps [OF 3(1)]
  show ?case
  proof (intro allI impI)
    fix v r'
    assume res: "parseObject p = Inr (v, r')"
    then obtain p1 ps p2 where
      e1: "eat LBRACE (p\<lparr>allocated := allocated p + 1\<rparr>) = Inr p1" and
      e2: "parseProperties [] p1 = Inr (ps, p2)" and e3: "eat RBRACE p2 = Inr r'"
      using eq by (auto split: sum.splits)
    have "weight p2 \<le> weight p1" using 3(2) [OF e1] e2 by auto
    moreover have "weight p1 < weight p" "weight r' < weight p2"
      using e1 e3 eat_weight by fastforce+
    ultimately show "weight r' < weight p" by simp
  qed
next
  case (4 properties p)
  note eq = parseProperties.psimps [OF 4(1)]
  show ?case
  proof (intro allI impI)
    fix ps' u'
    assume res: "parseProperties properties p = Inr (ps', u')"
    show "weight u' \<le> weight p"
    proof (cases "ttype (currentToken p) \<noteq> RBRACE \<and> ttype (currentToken p) \<noteq> EOF_TOKEN")
      case True
      then have ident: "ttype (currentToken p) = IDENTIFIER"
        using res eq by (auto split: if_splits)
      then obtain p1 p2 v p3 where
        e1: "eat IDENTIFIER p = Inr p1" and e2: "eat EQUALS p1 = Inr p2" and
        e3: "parseValue p2 = Inr (v, p3)" and
        e4: "parseProperties (map_assign (tvalue (currentToken p)) v properties) p3 =
               Inr (ps', u')"
        using res eq True by (auto split: sum.splits)
      have "weight p3 < weight p2" using 4(2) [OF True ident e1 e2] e3 by auto
      moreover have "weight u' \<le> weight p3"
        using 4(3) [OF True ident e1 e2 e3 refl] e4 by auto
      moreover have "weight p1 < weight p" "weight p2 < weight p1"
        using e1 e2 by (auto dest: eat_weight)
      ultimately show ?thesis by simp
    next
      case False
      then show ?thesis using res eq by auto
    qed
  qed
qed


lemma parse_total: "parseValue_parseElements_parseObject_parseProperties_dom x"
  apply (rule "parseValue_parseElements_parseObject_parseProperties.termination" [where
      R = "measures [\<lambda>x. case x of
        Inl (Inl p) \<Rightarrow> weight p | Inl (Inr (es, p)) \<Rightarrow> weight p
      | Inr (Inl p) \<Rightarrow> weight p | Inr (Inr (ps, p)) \<Rightarrow> weight p,
      \<lambda>x. case x of Inl (Inl p) \<Rightarrow> 1 | Inl (Inr (es, p)) \<Rightarrow> 2
      | Inr (Inl p) \<Rightarrow> 0 | Inr (Inr (ps, p)) \<Rightarrow> 0]", rule_format])
        apply simp
       apply (auto dest!: eat_weight parse_dom_weight(1) [rule_format, rotated])
  done

termination parseValue
  by (simp add: parse_total)

declare parseValue.simps [simp del] parseElements.simps [simp del] parseObject.simps [simp del]
  parseProperties.simps [simp del]

lemmas parse_weight = parse_dom_weight [OF parse_total, rule_format]

text \<open>
  \<^verbatim>\<open>parse\<close>: \<open>parseStatement\<close> is the body of its \<^verbatim>\<open>while\<close> loop, on the root's map
  and the parser; \<open>parseLoop\<close> is the loop.
\<close>

definition parseStatement ::
  "(string \<times> ASTNode) list \<Rightarrow> Parser \<Rightarrow> error + ((string \<times> ASTNode) list \<times> Parser)" where
  "parseStatement root p =
     (if ttype (currentToken p) = GLOBAL then
        (case eat GLOBAL p of
           Inl e \<Rightarrow> Inl e
         | Inr p1 \<Rightarrow>
        (case eat IDENTIFIER p1 of
           Inl e \<Rightarrow> Inl e
         | Inr p2 \<Rightarrow>
        (case eat EQUALS p2 of
           Inl e \<Rightarrow> Inl e
         | Inr p3 \<Rightarrow>
        (case parseValue p3 of
           Inl e \<Rightarrow> Inl e
         | Inr (v, p4) \<Rightarrow>
             Inr (root,
               p4\<lparr>constants := map_assign (tvalue (currentToken p1)) v (constants p4)\<rparr>)))))
      else if ttype (currentToken p) = IDENTIFIER then
        (case eat IDENTIFIER p of
           Inl e \<Rightarrow> Inl e
         | Inr p1 \<Rightarrow>
        (case eat EQUALS p1 of
           Inl e \<Rightarrow> Inl e
         | Inr p2 \<Rightarrow>
        (case parseValue p2 of
           Inl e \<Rightarrow> Inl e
         | Inr (v, p3) \<Rightarrow> Inr (map_assign (tvalue (currentToken p)) v root, p3))))
      else if ttype (currentToken p) = LBRACE then
        (case parseObject p of
           Inl e \<Rightarrow> Inl e
         | Inr (obj, p1) \<Rightarrow> Inr (map_assign ''unnamed'' obj root, p1))
      else Inl (UnexpectedToken (tvalue (currentToken p)) (tline (currentToken p))))"

lemma weight_constants [simp]: "weight (p\<lparr>constants := c\<rparr>) = weight p"
  by (simp add: weight_def)

lemma parseStatement_weight:
  assumes "parseStatement root p = Inr (root', p')"
  shows "weight p' < weight p"
proof -
  consider (g) "ttype (currentToken p) = GLOBAL" | (i) "ttype (currentToken p) = IDENTIFIER"
    | (b) "ttype (currentToken p) = LBRACE"
    | (other) "ttype (currentToken p) \<notin> {GLOBAL, IDENTIFIER, LBRACE}"
    by auto
  then show ?thesis
  proof cases
    case g
    then obtain p1 p2 p3 v p4 where
      e: "eat GLOBAL p = Inr p1" "eat IDENTIFIER p1 = Inr p2" "eat EQUALS p2 = Inr p3"
        "parseValue p3 = Inr (v, p4)"
        "p' = p4\<lparr>constants := map_assign (tvalue (currentToken p1)) v (constants p4)\<rparr>"
      using assms by (auto simp: parseStatement_def split: sum.splits)
    have "weight p1 < weight p" "weight p2 < weight p1" "weight p3 < weight p2"
      "weight p4 < weight p3"
      using e(1-4) by (auto dest: eat_weight parse_weight(1))
    then show ?thesis using e(5) by simp
  next
    case i
    then obtain p1 p2 v where
      e: "eat IDENTIFIER p = Inr p1" "eat EQUALS p1 = Inr p2" "parseValue p2 = Inr (v, p')"
      using assms by (auto simp: parseStatement_def split: sum.splits)
    have "weight p1 < weight p" "weight p2 < weight p1" "weight p' < weight p2"
      using e by (auto dest: eat_weight parse_weight(1))
    then show ?thesis by simp
  next
    case b
    then obtain obj where "parseObject p = Inr (obj, p')"
      using assms by (auto simp: parseStatement_def split: sum.splits)
    then show ?thesis by (rule parse_weight(3))
  next
    case other
    then show ?thesis using assms by (auto simp: parseStatement_def)
  qed
qed

function parseLoop ::
  "(string \<times> ASTNode) list \<Rightarrow> Parser \<Rightarrow> error + ((string \<times> ASTNode) list \<times> Parser)" where
  "parseLoop root p =
     (if ttype (currentToken p) \<noteq> EOF_TOKEN then
        (case parseStatement root p of
           Inl e \<Rightarrow> Inl e
         | Inr (root', p') \<Rightarrow> parseLoop root' p')
      else Inr (root, p))"
  by pat_completeness auto
termination
  by (relation "measure (\<lambda>(root, p). weight p)") (auto dest: parseStatement_weight)

declare parseLoop.simps [simp del]

definition parse :: "Parser \<Rightarrow> error + ASTNode" where
  "parse p =
     (case parseLoop [] (p\<lparr>allocated := allocated p + 1\<rparr>) of
        Inl e \<Rightarrow> Inl e
      | Inr (root, p') \<Rightarrow> Inr (ObjectNode (allocated p) root))"

text \<open>
  What \<^verbatim>\<open>main\<close> and \<^verbatim>\<open>runTests\<close> do with a text: a lexer on it, a parser on the lexer,
  \<^verbatim>\<open>parse\<close>; and then \<^verbatim>\<open>toJSON\<close> of the root.
\<close>

definition parse_text :: "string \<Rightarrow> error + ASTNode" where
  "parse_text text = parse (Parser_new (Lexer_new text))"

definition translate :: "string \<Rightarrow> error + string" where
  "translate text = (case parse_text text of Inl e \<Rightarrow> Inl e | Inr root \<Rightarrow> Inr (toJSON root 0))"

section \<open>What a successful call did\<close>

lemma eat_Inr:
  "eat t p = Inr p' \<longleftrightarrow>
     ttype (currentToken p) = t \<and>
     p' = p\<lparr>lexer := snd (nextToken (lexer p)), currentToken := fst (nextToken (lexer p))\<rparr>"
  by (auto simp: eat_def)

lemma eat_constants: "eat t p = Inr p' \<Longrightarrow> constants p' = constants p"
  by (auto simp: eat_Inr)

lemma eat_allocated: "eat t p = Inr p' \<Longrightarrow> allocated p' = allocated p"
  by (auto simp: eat_Inr)

lemma eat_currentToken:
  "eat t p = Inr p' \<Longrightarrow> currentToken p' = fst (nextToken (lexer p))"
  by (auto simp: eat_Inr)

lemma parseValue_InrE [consumes 1, case_names number bool string array reference object]:
  assumes "parseValue p = Inr (v, p')"
  obtains
    w where "ttype (currentToken p) = NUMBER" "stoll16 (tvalue (currentToken p)) = Inr w"
      "eat NUMBER (p\<lparr>allocated := allocated p + 1\<rparr>) = Inr p'" "v = NumberNode (allocated p) w"
  | "ttype (currentToken p) = STRING"
      "tvalue (currentToken p) = ''true'' \<or> tvalue (currentToken p) = ''false''"
      "eat STRING (p\<lparr>allocated := allocated p + 1\<rparr>) = Inr p'"
      "v = BoolNode (allocated p) (tvalue (currentToken p) = ''true'')"
  | "ttype (currentToken p) = STRING"
      "tvalue (currentToken p) \<noteq> ''true''" "tvalue (currentToken p) \<noteq> ''false''"
      "eat STRING (p\<lparr>allocated := allocated p + 1\<rparr>) = Inr p'"
      "v = StringNode (allocated p) (tvalue (currentToken p))"
  | p1 p2 es p3 where "ttype (currentToken p) = HASH" "eat HASH p = Inr p1"
      "eat LPAREN p1 = Inr p2"
      "parseElements [] (p2\<lparr>allocated := allocated p2 + 1\<rparr>) = Inr (es, p3)"
      "eat RPAREN p3 = Inr p'" "v = ArrayNode (allocated p2) es"
  | p1 p2 p3 where "ttype (currentToken p) = QUESTION" "eat QUESTION p = Inr p1"
      "eat LBRACKET p1 = Inr p2" "eat IDENTIFIER p2 = Inr p3" "eat RBRACKET p3 = Inr p'"
      "map_of (constants p') (tvalue (currentToken p2)) = Some v"
  | "ttype (currentToken p) = LBRACE" "parseObject p = Inr (v, p')"
proof -
  consider (num) "ttype (currentToken p) = NUMBER" | (str) "ttype (currentToken p) = STRING"
    | (hash) "ttype (currentToken p) = HASH" | (quest) "ttype (currentToken p) = QUESTION"
    | (lbrace) "ttype (currentToken p) = LBRACE"
    | (other) "ttype (currentToken p) \<notin> {NUMBER, STRING, HASH, QUESTION, LBRACE}"
    by auto
  then show thesis
  proof cases
    case num
    then show ?thesis
      using assms that(1) by (subst (asm) parseValue.simps) (auto split: sum.splits)
  next
    case str
    then show ?thesis
      using assms that(2,3)
      by (subst (asm) parseValue.simps) (auto split: sum.splits if_splits)
  next
    case hash
    then show ?thesis
      using assms that(4) by (subst (asm) parseValue.simps) (auto split: sum.splits)
  next
    case quest
    then show ?thesis
      using assms that(5)
      by (subst (asm) parseValue.simps) (auto split: sum.splits option.splits)
  next
    case lbrace
    then show ?thesis
      using assms that(6) by (subst (asm) parseValue.simps) auto
  next
    case other
    then show ?thesis
      using assms by (subst (asm) parseValue.simps) auto
  qed
qed

lemma parseElements_InrE [consumes 1, case_names step finish]:
  assumes "parseElements es p = Inr (es', p')"
  obtains
    e p1 where "ttype (currentToken p) \<noteq> RPAREN" "ttype (currentToken p) \<noteq> EOF_TOKEN"
      "parseValue p = Inr (e, p1)" "parseElements (es @ [e]) p1 = Inr (es', p')"
  | "ttype (currentToken p) = RPAREN \<or> ttype (currentToken p) = EOF_TOKEN" "es' = es" "p' = p"
proof (cases "ttype (currentToken p) \<noteq> RPAREN \<and> ttype (currentToken p) \<noteq> EOF_TOKEN")
  case True
  then have "(case parseValue p of Inl e \<Rightarrow> Inl e
      | Inr (element, p1) \<Rightarrow> parseElements (es @ [element]) p1) = Inr (es', p')"
    using assms by (simp add: parseElements.simps [of es p])
  then obtain e p1 where "parseValue p = Inr (e, p1)"
    "parseElements (es @ [e]) p1 = Inr (es', p')"
    by (cases "parseValue p") auto
  then show ?thesis using True that(1) by blast
next
  case False
  then have "Inr (es, p) = (Inr (es', p') :: error + ASTNode list \<times> Parser)"
    using assms unfolding parseElements.simps [of es p] by (simp only: False if_False)
  then have "es' = es" "p' = p" by simp_all
  then show ?thesis using False that(2) by blast
qed

lemma parseObject_InrE [consumes 1]:
  assumes "parseObject p = Inr (v, p')"
  obtains p1 ps p2 where "eat LBRACE (p\<lparr>allocated := allocated p + 1\<rparr>) = Inr p1"
    "parseProperties [] p1 = Inr (ps, p2)" "eat RBRACE p2 = Inr p'"
    "v = ObjectNode (allocated p) ps"
  using assms by (subst (asm) parseObject.simps) (auto split: sum.splits)

lemma parseProperties_InrE [consumes 1, case_names step finish]:
  assumes "parseProperties ps p = Inr (ps', p')"
  obtains
    p1 p2 v p3 where "ttype (currentToken p) = IDENTIFIER" "eat IDENTIFIER p = Inr p1"
      "eat EQUALS p1 = Inr p2" "parseValue p2 = Inr (v, p3)"
      "parseProperties (map_assign (tvalue (currentToken p)) v ps) p3 = Inr (ps', p')"
  | "ttype (currentToken p) = RBRACE \<or> ttype (currentToken p) = EOF_TOKEN" "ps' = ps" "p' = p"
proof (cases "ttype (currentToken p) \<noteq> RBRACE \<and> ttype (currentToken p) \<noteq> EOF_TOKEN")
  case True
  then have eq: "(if ttype (currentToken p) = IDENTIFIER then
           (case eat IDENTIFIER p of
              Inl e \<Rightarrow> Inl e
            | Inr p1 \<Rightarrow>
           (case eat EQUALS p1 of
              Inl e \<Rightarrow> Inl e
            | Inr p2 \<Rightarrow>
           (case parseValue p2 of
              Inl e \<Rightarrow> Inl e
            | Inr (v, p3) \<Rightarrow>
                parseProperties (map_assign (tvalue (currentToken p)) v ps) p3)))
         else Inl ExpectedIdentifier) = Inr (ps', p')"
    using assms by (simp add: parseProperties.simps [of ps p])
  then have ident: "ttype (currentToken p) = IDENTIFIER" by (simp split: if_splits)
  obtain p1 where e1: "eat IDENTIFIER p = Inr p1"
    using eq ident by (cases "eat IDENTIFIER p") auto
  obtain p2 where e2: "eat EQUALS p1 = Inr p2"
    using eq ident e1 by (cases "eat EQUALS p1") auto
  obtain v p3 where e3: "parseValue p2 = Inr (v, p3)"
    using eq ident e1 e2 by (cases "parseValue p2") auto
  have "parseProperties (map_assign (tvalue (currentToken p)) v ps) p3 = Inr (ps', p')"
    using eq ident e1 e2 e3 by simp
  then show ?thesis using ident e1 e2 e3 that(1) by blast
next
  case False
  then have "Inr (ps, p) = (Inr (ps', p') :: error + (string \<times> ASTNode) list \<times> Parser)"
    using assms unfolding parseProperties.simps [of ps p] by (simp only: False if_False)
  then have "ps' = ps" "p' = p" by simp_all
  then show ?thesis using False that(2) by blast
qed

lemma parseStatement_InrE [consumes 1, case_names global assignment block]:
  assumes "parseStatement root p = Inr (root', p')"
  obtains
    p1 p2 p3 v p4 where "ttype (currentToken p) = GLOBAL" "eat GLOBAL p = Inr p1"
      "eat IDENTIFIER p1 = Inr p2" "eat EQUALS p2 = Inr p3" "parseValue p3 = Inr (v, p4)"
      "root' = root"
      "p' = p4\<lparr>constants := map_assign (tvalue (currentToken p1)) v (constants p4)\<rparr>"
  | p1 p2 v where "ttype (currentToken p) = IDENTIFIER" "eat IDENTIFIER p = Inr p1"
      "eat EQUALS p1 = Inr p2" "parseValue p2 = Inr (v, p')"
      "root' = map_assign (tvalue (currentToken p)) v root"
  | obj where "ttype (currentToken p) = LBRACE" "parseObject p = Inr (obj, p')"
      "root' = map_assign ''unnamed'' obj root"
  using assms by (auto simp: parseStatement_def split: sum.splits if_splits)

lemma parseLoop_InrE [consumes 1, case_names step finish]:
  assumes "parseLoop root p = Inr (root', p')"
  obtains
    r1 p1 where "ttype (currentToken p) \<noteq> EOF_TOKEN" "parseStatement root p = Inr (r1, p1)"
      "parseLoop r1 p1 = Inr (root', p')"
  | "ttype (currentToken p) = EOF_TOKEN" "root' = root" "p' = p"
  using assms by (subst (asm) parseLoop.simps) (auto split: sum.splits if_splits)

section \<open>Number tokens hold hexadecimal digits\<close>

definition hexToken :: "Token \<Rightarrow> bool" where
  "hexToken t \<longleftrightarrow> (ttype t = NUMBER \<longrightarrow> (\<forall>c\<in>set (tvalue t). isHexDigit c))"

lemma readNumber_hex:
  "\<forall>c\<in>set acc. isHexDigit c \<Longrightarrow> \<forall>c\<in>set (fst (readNumber acc l)). isHexDigit c"
proof (induction acc l rule: readNumber.induct)
  case (1 number l)
  show ?case
  proof (cases "position l < length (input l) \<and> isHexDigit (peek l)")
    case True
    then have "\<forall>c\<in>set (number @ [fst (advance l)]). isHexDigit c"
      using 1(2) by simp
    then show ?thesis
      using 1(1) True by (simp add: readNumber.simps [of number l])
  next
    case False
    then show ?thesis using 1(2) by (auto simp: readNumber.simps [of number l])
  qed
qed

lemma wordType_not_NUMBER [simp]: "wordType s \<noteq> NUMBER"
  by (simp add: wordType_def)

lemma charType_not_NUMBER [simp]: "charType c \<noteq> NUMBER"
  by (simp add: charType_def)

lemma nextToken_cases [case_names eof number word string char]:
  obtains
    "\<not> position (skipWhitespace l) < length (input l)"
  | "position (skipWhitespace l) < length (input l)" "numberStart (skipWhitespace l)"
  | "position (skipWhitespace l) < length (input l)" "\<not> numberStart (skipWhitespace l)"
      "isalpha (peek (skipWhitespace l))"
  | "position (skipWhitespace l) < length (input l)" "peek (skipWhitespace l) = CHR 0x22"
  | "position (skipWhitespace l) < length (input l)" "\<not> numberStart (skipWhitespace l)"
      "\<not> isalpha (peek (skipWhitespace l))" "peek (skipWhitespace l) \<noteq> CHR 0x22"
  by blast

lemma nextToken_hexToken: "hexToken (fst (nextToken l))"
proof (cases l rule: nextToken_cases)
  case eof
  then show ?thesis by (simp add: nextToken_eof hexToken_def)
next
  case number
  then show ?thesis using readNumber_hex [of "[]"] by (simp add: nextToken_number hexToken_def)
next
  case word
  then show ?thesis by (simp add: nextToken_word hexToken_def)
next
  case string
  then show ?thesis by (simp add: nextToken_string hexToken_def)
next
  case char
  then show ?thesis by (simp add: nextToken_char hexToken_def)
qed

section \<open>Decoding a run of hexadecimal digits\<close>

lemma hexDigitValue_range: "isHexDigit c \<Longrightarrow> 0 \<le> hexDigitValue c \<and> hexDigitValue c < 16"
  by (auto simp: isHexDigit_def isdigit_def hexDigitValue_def less_eq_char_def)

lemma hexValue_snoc: "hexValue (ds @ [c]) = 16 * hexValue ds + hexDigitValue c"
  by (simp add: hexValue_def)

lemma hexValue_nonneg: "\<forall>c\<in>set ds. isHexDigit c \<Longrightarrow> 0 \<le> hexValue ds"
proof (induction ds rule: rev_induct)
  case Nil
  then show ?case by (simp add: hexValue_def)
next
  case (snoc c ds)
  then show ?case using hexDigitValue_range [of c] by (simp add: hexValue_snoc)
qed

lemma isHexDigit_simps [simp]:
  "\<not> isspace c" "c \<noteq> CHR ''-''" "c \<noteq> CHR ''+''" "c \<noteq> CHR ''x''" "c \<noteq> CHR ''X''"
  if "isHexDigit c"
  using that by (auto simp: isHexDigit_def isdigit_def isspace_def less_eq_char_def)

lemma stoll16_hex:
  assumes "\<forall>c\<in>set ds. isHexDigit c"
  shows "stoll16 ds =
    (if ds = [] then Inl InvalidArgument
     else if hexValue ds > 2 ^ 63 - 1 then Inl OutOfRange
     else Inr (word_of_int (hexValue ds)))"
proof (cases ds)
  case Nil
  then show ?thesis by (simp add: stoll16_def)
next
  case (Cons d ds')
  then have d: "isHexDigit d" using assms by simp
  have dw: "dropWhile isspace ds = ds" using Cons d by simp
  have hd: "hd ds \<noteq> CHR ''-''" "hd ds \<noteq> CHR ''+''" using Cons d by simp_all
  have pre: "(case ds of
                  z # x # d # r \<Rightarrow>
                    if z = CHR ''0'' \<and> (x = CHR ''x'' \<or> x = CHR ''X'') \<and> isHexDigit d
                    then d # r else ds
                | _ \<Rightarrow> ds) = ds"
    using assms by (auto split: list.splits)
  have tw: "takeWhile isHexDigit ds = ds" using assms by (simp add: takeWhile_eq_all_conv)
  show ?thesis
    unfolding stoll16_def Let_def dw using hd pre tw Cons by simp
qed

lemma sint_word_of_int_64:
  "0 \<le> n \<Longrightarrow> n \<le> 2 ^ 63 - 1 \<Longrightarrow> sint (word_of_int n :: 64 word) = n"
  by (simp add: int_word_sint)

section \<open>The map\<close>

lemma map_assign_keys: "fst ` set (map_assign k v m) = insert k (fst ` set m)"
proof (induction m)
  case Nil
  then show ?case by simp
next
  case (Cons kv m)
  obtain k' v' where kv: "kv = (k', v')" by (cases kv)
  consider "k < k'" | "\<not> k < k'" "k' < k" | "k = k'"
    by (cases "k < k'"; cases "k' < k") auto
  then show ?case
  proof cases
    case 1
    then show ?thesis by (simp add: kv)
  next
    case 2
    then show ?thesis using Cons.IH by (simp add: kv insert_commute)
  next
    case 3
    then show ?thesis by (simp add: kv)
  qed
qed

lemma map_assign_sorted:
  "sorted_wrt (<) (map fst m) \<Longrightarrow> sorted_wrt (<) (map fst (map_assign k v m))"
proof (induction m)
  case Nil
  then show ?case by simp
next
  case (Cons kv m)
  obtain k' v' where kv: "kv = (k', v')" by (cases kv)
  show ?case
  proof (cases "k < k'")
    case True
    then show ?thesis using Cons.prems kv by (auto intro: less_trans)
  next
    case nlt: False
    show ?thesis
    proof (cases "k' < k")
      case True
      have "\<forall>x\<in>set (map fst (map_assign k v m)). k' < x"
        using Cons.prems kv True map_assign_keys [of k v m] by auto
      then show ?thesis using Cons nlt True kv by simp
    next
      case False
      then have "k = k'" using nlt by simp
      then show ?thesis using Cons.prems kv by simp
    qed
  qed
qed

lemma map_assign_values:
  "x \<in> set (map_assign k v m) \<Longrightarrow> x = (k, v) \<or> x \<in> set m"
  by (induction m) (auto split: if_splits)

lemma map_of_map_assign: "map_of (map_assign k v m) = (map_of m)(k \<mapsto> v)"
  by (induction m) (auto simp: fun_upd_twist)

section \<open>Trees the parser builds\<close>

text \<open>The node and everything below it, in the order \<^verbatim>\<open>toJSON\<close> visits them.\<close>

fun subnodes :: "ASTNode \<Rightarrow> ASTNode list" where
  "subnodes (ArrayNode a elements) = ArrayNode a elements # concat (map subnodes elements)"
| "subnodes (ObjectNode a properties) =
     ObjectNode a properties # concat (map (\<lambda>prop. subnodes (snd prop)) properties)"
| "subnodes node = [node]"

fun wellformed :: "ASTNode \<Rightarrow> bool" where
  "wellformed (NumberNode a v) \<longleftrightarrow> 0 \<le> sint v"
| "wellformed (ArrayNode a elements) \<longleftrightarrow> (\<forall>e\<in>set elements. wellformed e)"
| "wellformed (ObjectNode a properties) \<longleftrightarrow>
     sorted_wrt (<) (map fst properties) \<and> (\<forall>prop\<in>set properties. wellformed (snd prop))"
| "wellformed node \<longleftrightarrow> True"

lemma wellformed_subnodes: "wellformed n \<Longrightarrow> m \<in> set (subnodes n) \<Longrightarrow> wellformed m"
  by (induction n arbitrary: m rule: subnodes.induct) auto

definition state_ok :: "Parser \<Rightarrow> bool" where
  "state_ok p \<longleftrightarrow>
     hexToken (currentToken p) \<and> (\<forall>prop\<in>set (constants p). wellformed (snd prop))"

lemma state_ok_allocated [simp]: "state_ok (p\<lparr>allocated := a\<rparr>) = state_ok p"
  by (simp add: state_ok_def)

lemma eat_state_ok: "eat t p = Inr p' \<Longrightarrow> state_ok p \<Longrightarrow> state_ok p'"
  by (auto simp: eat_Inr state_ok_def nextToken_hexToken)

lemma stoll16_token:
  assumes "hexToken t" "ttype t = NUMBER" "stoll16 (tvalue t) = Inr w"
  shows "tvalue t \<noteq> []" "hexValue (tvalue t) \<le> 2 ^ 63 - 1" "w = word_of_int (hexValue (tvalue t))"
    "sint w = hexValue (tvalue t)" "0 \<le> sint w"
proof -
  have hex: "\<forall>c\<in>set (tvalue t). isHexDigit c" using assms(1,2) by (simp add: hexToken_def)
  note eq = stoll16_hex [OF hex]
  show ne: "tvalue t \<noteq> []" using assms(3) eq by auto
  show le: "hexValue (tvalue t) \<le> 2 ^ 63 - 1" using assms(3) eq ne by (auto split: if_splits)
  show w: "w = word_of_int (hexValue (tvalue t))" using assms(3) eq ne le by auto
  show s: "sint w = hexValue (tvalue t)"
    unfolding w using hexValue_nonneg [OF hex] le by (rule sint_word_of_int_64)
  show "0 \<le> sint w" using s hexValue_nonneg [OF hex] by simp
qed

text \<open>Only \<^verbatim>\<open>parse\<close> writes the constant table.\<close>

lemma parse_constants:
  "\<forall>v p'. parseValue p = Inr (v, p') \<longrightarrow> constants p' = constants p"
  "\<forall>es' q'. parseElements es q = Inr (es', q') \<longrightarrow> constants q' = constants q"
  "\<forall>v r'. parseObject r = Inr (v, r') \<longrightarrow> constants r' = constants r"
  "\<forall>ps' u'. parseProperties ps u = Inr (ps', u') \<longrightarrow> constants u' = constants u"
proof (induction p and es q and r and ps u
    rule: parseValue_parseElements_parseObject_parseProperties.induct)
  case (1 p)
  show ?case
  proof (intro allI impI)
    fix v p'
    assume "parseValue p = Inr (v, p')"
    then show "constants p' = constants p"
    proof (cases rule: parseValue_InrE)
      case (number w)
      then show ?thesis using eat_constants [OF number(3)] by simp
    next
      case bool
      then show ?thesis using eat_constants [OF bool(3)] by simp
    next
      case string
      then show ?thesis using eat_constants [OF string(4)] by simp
    next
      case (array p1 p2 es p3)
      have "constants p3 = constants (p2\<lparr>allocated := allocated p2 + 1\<rparr>)"
        using 1(1) [OF _ _ array(1,2,3)] array(1,4) by simp
      then show ?thesis
        using eat_constants [OF array(2)] eat_constants [OF array(3)]
          eat_constants [OF array(5)] by simp
    next
      case (reference p1 p2 p3)
      then show ?thesis
        using eat_constants [OF reference(2)] eat_constants [OF reference(3)]
          eat_constants [OF reference(4)] eat_constants [OF reference(5)] by simp
    next
      case object
      then show ?thesis using 1(2) by simp
    qed
  qed
next
  case (2 elements p)
  show ?case
  proof (intro allI impI)
    fix es' q'
    assume "parseElements elements p = Inr (es', q')"
    then show "constants q' = constants p"
    proof (cases rule: parseElements_InrE)
      case (step e p1)
      have ne: "ttype (currentToken p) \<noteq> RPAREN \<and> ttype (currentToken p) \<noteq> EOF_TOKEN"
        using step(1,2) by simp
      have "constants p1 = constants p" using 2(1) [OF ne] step(3) by simp
      moreover have "constants q' = constants p1" using 2(2) [OF ne step(3) refl] step(4) by simp
      ultimately show ?thesis by simp
    next
      case finish
      then show ?thesis by simp
    qed
  qed
next
  case (3 p)
  show ?case
  proof (intro allI impI)
    fix v r'
    assume "parseObject p = Inr (v, r')"
    then show "constants r' = constants p"
    proof (cases rule: parseObject_InrE)
      case (1 p1 ps p2)
      have "constants p2 = constants p1" using 3 [OF 1(1)] 1(2) by simp
      then show ?thesis using eat_constants [OF 1(1)] eat_constants [OF 1(3)] by simp
    qed
  qed
next
  case (4 properties p)
  show ?case
  proof (intro allI impI)
    fix ps' u'
    assume "parseProperties properties p = Inr (ps', u')"
    then show "constants u' = constants p"
    proof (cases rule: parseProperties_InrE)
      case (step p1 p2 v p3)
      have ne: "ttype (currentToken p) \<noteq> RBRACE \<and> ttype (currentToken p) \<noteq> EOF_TOKEN"
        using step(1) by simp
      have "constants p3 = constants p2" using 4(1) [OF ne step(1-3)] step(4) by simp
      moreover have "constants u' = constants p3"
        using 4(2) [OF ne step(1-4) refl] step(5) by simp
      ultimately show ?thesis
        using eat_constants [OF step(2)] eat_constants [OF step(3)] by simp
    next
      case finish
      then show ?thesis by simp
    qed
  qed
qed

lemmas parseValue_constants = parse_constants(1) [rule_format]
  and parseElements_constants = parse_constants(2) [rule_format]
  and parseObject_constants = parse_constants(3) [rule_format]
  and parseProperties_constants = parse_constants(4) [rule_format]

lemma wellformed_map_assign:
  "\<forall>prop\<in>set m. wellformed (snd prop) \<Longrightarrow> wellformed v \<Longrightarrow>
     \<forall>prop\<in>set (map_assign k v m). wellformed (snd prop)"
  using map_assign_values [of _ k v m] by fastforce

lemma parse_wellformed:
  "\<forall>v p'. state_ok p \<longrightarrow> parseValue p = Inr (v, p') \<longrightarrow> wellformed v \<and> state_ok p'"
  "\<forall>es' q'. state_ok q \<longrightarrow> (\<forall>e\<in>set es. wellformed e) \<longrightarrow>
     parseElements es q = Inr (es', q') \<longrightarrow> (\<forall>e\<in>set es'. wellformed e) \<and> state_ok q'"
  "\<forall>v r'. state_ok r \<longrightarrow> parseObject r = Inr (v, r') \<longrightarrow> wellformed v \<and> state_ok r'"
  "\<forall>ps' u'. state_ok u \<longrightarrow> sorted_wrt (<) (map fst ps) \<longrightarrow>
     (\<forall>prop\<in>set ps. wellformed (snd prop)) \<longrightarrow> parseProperties ps u = Inr (ps', u') \<longrightarrow>
     sorted_wrt (<) (map fst ps') \<and> (\<forall>prop\<in>set ps'. wellformed (snd prop)) \<and> state_ok u'"
proof (induction p and es q and r and ps u
    rule: parseValue_parseElements_parseObject_parseProperties.induct)
  case (1 p)
  show ?case
  proof (intro allI impI)
    fix v p'
    assume ok: "state_ok p" and res: "parseValue p = Inr (v, p')"
    from res show "wellformed v \<and> state_ok p'"
    proof (cases rule: parseValue_InrE)
      case (number w)
      have "0 \<le> sint w"
        using stoll16_token(5) [OF _ number(1,2)] ok by (simp add: state_ok_def)
      moreover have "state_ok p'" using eat_state_ok [OF number(3)] ok by simp
      ultimately show ?thesis using number(4) by simp
    next
      case bool
      have "state_ok p'" using eat_state_ok [OF bool(3)] ok by simp
      then show ?thesis using bool(4) by simp
    next
      case string
      have "state_ok p'" using eat_state_ok [OF string(4)] ok by simp
      then show ?thesis using string(5) by simp
    next
      case (array p1 p2 es p3)
      have ok2: "state_ok p2" using eat_state_ok [OF array(3) eat_state_ok [OF array(2) ok]] .
      have "(\<forall>e\<in>set es. wellformed e) \<and> state_ok p3"
        using 1(1) [OF _ _ array(1,2,3)] array(1,4) ok2 by simp
      then show ?thesis using eat_state_ok [OF array(5)] array(6) by simp
    next
      case (reference p1 p2 p3)
      have ok': "state_ok p'"
        using eat_state_ok [OF reference(5) eat_state_ok [OF reference(4)
          eat_state_ok [OF reference(3) eat_state_ok [OF reference(2) ok]]]] .
      have "(tvalue (currentToken p2), v) \<in> set (constants p')"
        using reference(6) by (rule map_of_SomeD)
      then have "wellformed v" using ok' by (auto simp: state_ok_def)
      then show ?thesis using ok' by simp
    next
      case object
      then show ?thesis using 1(2) ok by simp
    qed
  qed
next
  case (2 elements p)
  show ?case
  proof (intro allI impI)
    fix es' q'
    assume ok: "state_ok p" and wf: "\<forall>e\<in>set elements. wellformed e"
      and res: "parseElements elements p = Inr (es', q')"
    from res show "(\<forall>e\<in>set es'. wellformed e) \<and> state_ok q'"
    proof (cases rule: parseElements_InrE)
      case (step e p1)
      have ne: "ttype (currentToken p) \<noteq> RPAREN \<and> ttype (currentToken p) \<noteq> EOF_TOKEN"
        using step(1,2) by simp
      have e: "wellformed e \<and> state_ok p1" using 2(1) [OF ne] step(3) ok by simp
      then have "\<forall>x\<in>set (elements @ [e]). wellformed x" using wf by simp
      then show ?thesis using 2(2) [OF ne step(3) refl] step(4) e by simp
    next
      case finish
      then show ?thesis using ok wf by simp
    qed
  qed
next
  case (3 p)
  show ?case
  proof (intro allI impI)
    fix v r'
    assume ok: "state_ok p" and res: "parseObject p = Inr (v, r')"
    from res show "wellformed v \<and> state_ok r'"
    proof (cases rule: parseObject_InrE)
      case (1 p1 ps p2)
      have ok1: "state_ok p1" using eat_state_ok [OF 1(1)] ok by simp
      have "sorted_wrt (<) (map fst ps) \<and> (\<forall>prop\<in>set ps. wellformed (snd prop)) \<and>
          state_ok p2"
        using 3 [OF 1(1)] 1(2) ok1 by simp
      then show ?thesis using eat_state_ok [OF 1(3)] 1(4) by simp
    qed
  qed
next
  case (4 properties p)
  show ?case
  proof (intro allI impI)
    fix ps' u'
    assume ok: "state_ok p" and so: "sorted_wrt (<) (map fst properties)"
      and wf: "\<forall>prop\<in>set properties. wellformed (snd prop)"
      and res: "parseProperties properties p = Inr (ps', u')"
    from res show "sorted_wrt (<) (map fst ps') \<and> (\<forall>prop\<in>set ps'. wellformed (snd prop)) \<and>
      state_ok u'"
    proof (cases rule: parseProperties_InrE)
      case (step p1 p2 v p3)
      have ne: "ttype (currentToken p) \<noteq> RBRACE \<and> ttype (currentToken p) \<noteq> EOF_TOKEN"
        using step(1) by simp
      have ok2: "state_ok p2" using eat_state_ok [OF step(3) eat_state_ok [OF step(2) ok]] .
      have v: "wellformed v \<and> state_ok p3" using 4(1) [OF ne step(1-3)] step(4) ok2 by simp
      have "sorted_wrt (<) (map fst (map_assign (tvalue (currentToken p)) v properties))"
        using so by (rule map_assign_sorted)
      moreover have
        "\<forall>prop\<in>set (map_assign (tvalue (currentToken p)) v properties). wellformed (snd prop)"
        using wellformed_map_assign [OF wf conjunct1 [OF v]] .
      ultimately show ?thesis using 4(2) [OF ne step(1-4) refl] step(5) v by simp
    next
      case finish
      then show ?thesis using ok so wf by simp
    qed
  qed
qed

lemmas parseValue_wellformed = parse_wellformed(1) [rule_format]
  and parseObject_wellformed = parse_wellformed(3) [rule_format]

lemma state_ok_constants:
  "state_ok (p\<lparr>constants := c\<rparr>) \<longleftrightarrow>
     hexToken (currentToken p) \<and> (\<forall>prop\<in>set c. wellformed (snd prop))"
  by (simp add: state_ok_def)

lemma parseStatement_wellformed:
  assumes "parseStatement root p = Inr (root', p')" "state_ok p"
    "sorted_wrt (<) (map fst root)" "\<forall>prop\<in>set root. wellformed (snd prop)"
  shows "sorted_wrt (<) (map fst root') \<and> (\<forall>prop\<in>set root'. wellformed (snd prop)) \<and>
    state_ok p'"
  using assms(1)
proof (cases rule: parseStatement_InrE)
  case (global p1 p2 p3 v p4)
  have ok3: "state_ok p3"
    using eat_state_ok [OF global(4) eat_state_ok [OF global(3) eat_state_ok [OF global(2)
      assms(2)]]] .
  have v: "wellformed v" "state_ok p4" using parseValue_wellformed [OF ok3 global(5)] by simp_all
  have "\<forall>prop\<in>set (map_assign (tvalue (currentToken p1)) v (constants p4)).
      wellformed (snd prop)"
    using wellformed_map_assign [of "constants p4" v] v by (simp add: state_ok_def)
  then have "state_ok p'" using v(2) global(7) by (simp add: state_ok_def)
  then show ?thesis using assms(3,4) global(6) by simp
next
  case (assignment p1 p2 v)
  have ok2: "state_ok p2"
    using eat_state_ok [OF assignment(3) eat_state_ok [OF assignment(2) assms(2)]] .
  have v: "wellformed v" "state_ok p'"
    using parseValue_wellformed [OF ok2 assignment(4)] by simp_all
  show ?thesis
    using v(2) wellformed_map_assign [OF assms(4) v(1)] map_assign_sorted [OF assms(3)]
    by (simp add: assignment(5))
next
  case (block obj)
  have v: "wellformed obj" "state_ok p'"
    using parseObject_wellformed [OF assms(2) block(2)] by simp_all
  show ?thesis
    using v(2) wellformed_map_assign [OF assms(4) v(1)] map_assign_sorted [OF assms(3)]
    by (simp add: block(3))
qed

lemma parseLoop_wellformed:
  "parseLoop root p = Inr (root', p') \<Longrightarrow> state_ok p \<Longrightarrow> sorted_wrt (<) (map fst root) \<Longrightarrow>
   \<forall>prop\<in>set root. wellformed (snd prop) \<Longrightarrow>
   sorted_wrt (<) (map fst root') \<and> (\<forall>prop\<in>set root'. wellformed (snd prop))"
proof (induction root p rule: parseLoop.induct)
  case (1 root p)
  from 1(2) show ?case
  proof (cases rule: parseLoop_InrE)
    case (step r1 p1)
    have "sorted_wrt (<) (map fst r1) \<and> (\<forall>prop\<in>set r1. wellformed (snd prop)) \<and> state_ok p1"
      using parseStatement_wellformed [OF step(2) 1(3,4,5)] .
    then show ?thesis using 1(1) [OF step(1,2) refl step(3)] by simp
  next
    case finish
    then show ?thesis using 1(4,5) by simp
  qed
qed

lemma Parser_new_state_ok: "state_ok (Parser_new l)"
  by (simp add: Parser_new_def state_ok_def nextToken_hexToken)

lemma parse_text_wellformed: "parse_text text = Inr root \<Longrightarrow> wellformed root"
proof -
  assume "parse_text text = Inr root"
  then obtain props p' where
    loop: "parseLoop [] ((Parser_new (Lexer_new text))\<lparr>allocated := allocated (Parser_new (Lexer_new text)) + 1\<rparr>) = Inr (props, p')"
    and root: "root = ObjectNode (allocated (Parser_new (Lexer_new text))) props"
    by (auto simp: parse_text_def parse_def split: sum.splits)
  have "sorted_wrt (<) (map fst props) \<and> (\<forall>prop\<in>set props. wellformed (snd prop))"
    using parseLoop_wellformed [OF loop] by (simp add: Parser_new_state_ok)
  then show ?thesis by (simp add: root)
qed

section \<open>Further facts about the lexer, the map and the parser\<close>

lemma advance_position:
  "peek l \<noteq> CHR 0x00 \<Longrightarrow> position (snd (advance l)) = position l + 1"
  by (simp add: advance_def Let_def)

lemma eat_same:
  "ttype (currentToken p) = t \<Longrightarrow>
   eat t p = Inr (p\<lparr>lexer := snd (nextToken (lexer p)), currentToken := fst (nextToken (lexer p))\<rparr>)"
  by (simp add: eat_def)

lemma readNumber_stop:
  "\<not> (position l < length (input l) \<and> isHexDigit (peek l)) \<Longrightarrow> readNumber acc l = (acc, l)"
  by (auto simp: readNumber.simps [of acc l])

lemma map_assign_replace_keys:
  "sorted_wrt (<) (map fst m) \<Longrightarrow> k \<in> fst ` set m \<Longrightarrow>
     map fst (map_assign k v m) = map fst m"
proof (induction m)
  case Nil
  then show ?case by simp
next
  case (Cons kv m)
  obtain k' v' where kv: "kv = (k', v')" by (cases kv)
  have above: "\<forall>x\<in>fst ` set m. k' < x" using Cons.prems(1) kv by auto
  show ?case
  proof (cases "k = k'")
    case True
    then show ?thesis by (simp add: kv)
  next
    case False
    then have km: "k \<in> fst ` set m" using Cons.prems(2) kv by auto
    then have "k' < k" using above by blast
    moreover have "\<not> k < k'" using \<open>k' < k\<close> by simp
    ultimately show ?thesis using Cons.IH Cons.prems(1) km by (simp add: kv)
  qed
qed

lemma sorted_keys_distinct: "sorted_wrt (<) (ks :: string list) \<Longrightarrow> distinct ks"
  by (induction ks) auto

section \<open>Line breaks in the output\<close>

lemma digits_chars: "set (digits n) \<subseteq> set ''0123456789''"
proof (induction n rule: digits.induct)
  case (1 n)
  have nth: "''0123456789'' ! k \<in> set ''0123456789''" if "k < 10" for k
    using that by (intro nth_mem) simp
  show ?case
  proof (cases "n < 10")
    case True
    then have "nat n < 10" by simp
    then show ?thesis using True nth by (simp add: digits.simps [of n])
  next
    case False
    have "nat (n mod 10) < 10" by simp
    then have "''0123456789'' ! nat (n mod 10) \<in> set ''0123456789''" by (rule nth)
    then show ?thesis using False 1 by (simp add: digits.simps [of n])
  qed
qed

lemma to_string_no_newline: "CHR 0x0A \<notin> set (to_string i)"
  using digits_chars [of i] digits_chars [of "- i"] by (auto simp: to_string_def)

lemma joined_newline:
  "CHR 0x0A \<notin> set sep \<Longrightarrow>
     CHR 0x0A \<in> set (joined sep xs) \<longleftrightarrow> (\<exists>x\<in>set xs. CHR 0x0A \<in> set x)"
  by (induction sep xs rule: joined.induct) auto

text \<open>Nodes whose text has no line break: no object with an entry, no string with one.\<close>

fun single_line :: "ASTNode \<Rightarrow> bool" where
  "single_line (NumberNode a v) \<longleftrightarrow> True"
| "single_line (StringNode a v) \<longleftrightarrow> CHR 0x0A \<notin> set v"
| "single_line (BoolNode a v) \<longleftrightarrow> True"
| "single_line (ArrayNode a elements) \<longleftrightarrow> (\<forall>e\<in>set elements. single_line e)"
| "single_line (ObjectNode a properties) \<longleftrightarrow> properties = []"

lemma single_line_toJSON: "single_line n \<Longrightarrow> CHR 0x0A \<notin> set (toJSON n indent)"
proof (induction n arbitrary: indent)
  case (NumberNode a v)
  then show ?case by (simp add: to_string_no_newline)
next
  case (ArrayNode a elements)
  have "\<not> (\<exists>x\<in>set (map (\<lambda>e. toJSON e 0) elements). CHR 0x0A \<in> set x)"
    using ArrayNode by auto
  then have "CHR 0x0A \<notin> set (joined '', '' (map (\<lambda>e. toJSON e 0) elements))"
    by (subst joined_newline) simp_all
  then show ?case by simp
qed auto

lemma toJSON_newline_iff: "CHR 0x0A \<in> set (toJSON n indent) \<longleftrightarrow> \<not> single_line n"
proof (induction n arbitrary: indent)
  case (NumberNode a v)
  then show ?case by (simp add: to_string_no_newline)
next
  case (ArrayNode a elements)
  have "CHR 0x0A \<in> set (joined '', '' (map (\<lambda>e. toJSON e 0) elements)) \<longleftrightarrow>
      (\<exists>x\<in>set (map (\<lambda>e. toJSON e 0) elements). CHR 0x0A \<in> set x)"
    by (rule joined_newline) simp
  then show ?case using ArrayNode by auto
next
  case (ObjectNode a properties)
  then show ?case by simp
qed auto

section \<open>What the lexer reads\<close>

lemma peek_nth: "position l < length (input l) \<Longrightarrow> peek l = input l ! position l"
  by (simp add: peek_def)

lemma readString_takeWhile:
  "fst (readString acc l) =
     acc @ takeWhile (\<lambda>c. c \<noteq> CHR 0x22 \<and> c \<noteq> CHR 0x00) (drop (position l) (input l)) \<and>
   position (snd (readString acc l)) =
     position l +
     length (takeWhile (\<lambda>c. c \<noteq> CHR 0x22 \<and> c \<noteq> CHR 0x00) (drop (position l) (input l)))"
proof (induction acc l rule: readString.induct)
  case (1 str l)
  show ?case
  proof (cases "position l < length (input l)")
    case False
    then show ?thesis by (simp add: readString.simps [of str l])
  next
    case True
    then have d: "drop (position l) (input l) = peek l # drop (Suc (position l)) (input l)"
      by (simp add: peek_nth Cons_nth_drop_Suc)
    show ?thesis
    proof (cases "peek l \<noteq> CHR 0x22 \<and> peek l \<noteq> CHR 0x00")
      case go: True
      then have p: "position (snd (advance l)) = Suc (position l)"
        by (simp add: advance_position)
      have "fst (readString (str @ [fst (advance l)]) (snd (advance l))) =
          (str @ [fst (advance l)]) @
            takeWhile (\<lambda>c. c \<noteq> CHR 0x22 \<and> c \<noteq> CHR 0x00)
              (drop (position (snd (advance l))) (input (snd (advance l)))) \<and>
        position (snd (readString (str @ [fst (advance l)]) (snd (advance l)))) =
          position (snd (advance l)) +
          length (takeWhile (\<lambda>c. c \<noteq> CHR 0x22 \<and> c \<noteq> CHR 0x00)
              (drop (position (snd (advance l))) (input (snd (advance l)))))"
        using 1 True go by simp
      then show ?thesis
        using True go by (simp add: readString.simps [of str l] d p)
    next
      case False
      then show ?thesis using True by (auto simp: readString.simps [of str l] d)
    qed
  qed
qed

lemma wordType_not_INVALID [simp]: "wordType s \<noteq> INVALID"
  by (simp add: wordType_def)

lemma wordType_not_EOF [simp]: "wordType s \<noteq> EOF_TOKEN"
  by (simp add: wordType_def)

lemma nextToken_progress_nul_free:
  assumes "CHR 0x00 \<notin> set (input l)" "ttype (fst (nextToken l)) \<noteq> EOF_TOKEN"
  shows "remaining (snd (nextToken l)) < remaining l"
proof (cases "ttype (fst (nextToken l)) = INVALID")
  case False
  then show ?thesis using assms(2) by (simp add: nextToken_progress)
next
  case inv: True
  show ?thesis
  proof (cases l rule: nextToken_cases)
    case eof
    then show ?thesis using inv by (simp add: nextToken_eof)
  next
    case number
    then show ?thesis using inv by (simp add: nextToken_number)
  next
    case word
    then show ?thesis using inv by (simp add: nextToken_word)
  next
    case string
    then show ?thesis using inv by (simp add: nextToken_string)
  next
    case char
    have "peek (skipWhitespace l) \<in> set (input l)"
      using char(1) peek_nth [of "skipWhitespace l"] nth_mem [of "position (skipWhitespace l)" "input l"]
      by simp
    then have "peek (skipWhitespace l) \<noteq> CHR 0x00" using assms(1) by auto
    then have "remaining (snd (advance (skipWhitespace l))) < remaining (skipWhitespace l)"
      using char(1) by (simp add: advance_remaining)
    then show ?thesis
      using char skipWhitespace_remaining [of l] by (simp add: nextToken_char)
  qed
qed

lemma reaches_EOF:
  "CHR 0x00 \<notin> set (input l) \<Longrightarrow>
     \<exists>n\<le>remaining l.
       ttype (fst (nextToken (((\<lambda>x. snd (nextToken x)) ^^ n) l))) = EOF_TOKEN"
proof (induction "remaining l" arbitrary: l rule: less_induct)
  case less
  show ?case
  proof (cases "ttype (fst (nextToken l)) = EOF_TOKEN")
    case True
    then have "ttype (fst (nextToken (((\<lambda>x. snd (nextToken x)) ^^ 0) l))) = EOF_TOKEN"
      by simp
    then show ?thesis by blast
  next
    case False
    define l1 where "l1 = snd (nextToken l)"
    have lt: "remaining l1 < remaining l"
      using nextToken_progress_nul_free [OF less.prems False] by (simp add: l1_def)
    have nf: "CHR 0x00 \<notin> set (input l1)" using less.prems by (simp add: l1_def)
    obtain n where n: "n \<le> remaining l1"
      "ttype (fst (nextToken (((\<lambda>x. snd (nextToken x)) ^^ n) l1))) = EOF_TOKEN"
      using less.hyps [OF lt nf] by blast
    have "((\<lambda>x. snd (nextToken x)) ^^ Suc n) l = ((\<lambda>x. snd (nextToken x)) ^^ n) l1"
      by (simp add: funpow_Suc_right l1_def del: funpow.simps)
    then have "ttype (fst (nextToken (((\<lambda>x. snd (nextToken x)) ^^ Suc n) l))) = EOF_TOKEN"
      using n(2) by simp
    moreover have "Suc n \<le> remaining l" using n(1) lt by simp
    ultimately show ?thesis by blast
  qed
qed

section \<open>The constant table along the top-level loop\<close>

text \<open>
  \<open>statements n (root, p)\<close>: the root's map and the parser after \<open>n\<close> turns of the loop of
  \<^verbatim>\<open>parse\<close> (fewer when the end token comes first). \<open>undeclared name n (root, p)\<close>: none of
  these turns is a declaration \<^verbatim>\<open>global name = ...\<close>; the name a declaration binds is the
  text of the token behind \<^verbatim>\<open>global\<close>.
\<close>

fun statements ::
  "nat \<Rightarrow> (string \<times> ASTNode) list \<times> Parser \<Rightarrow> error + ((string \<times> ASTNode) list \<times> Parser)" where
  "statements 0 (root, p) = Inr (root, p)"
| "statements (Suc n) (root, p) =
     (if ttype (currentToken p) \<noteq> EOF_TOKEN then
        (case parseStatement root p of
           Inl e \<Rightarrow> Inl e
         | Inr (root', p') \<Rightarrow> statements n (root', p'))
      else Inr (root, p))"

fun undeclared :: "string \<Rightarrow> nat \<Rightarrow> (string \<times> ASTNode) list \<times> Parser \<Rightarrow> bool" where
  "undeclared name 0 (root, p) \<longleftrightarrow> True"
| "undeclared name (Suc n) (root, p) \<longleftrightarrow>
     (if ttype (currentToken p) \<noteq> EOF_TOKEN then
        \<not> (ttype (currentToken p) = GLOBAL \<and> tvalue (fst (nextToken (lexer p))) = name) \<and>
        (case parseStatement root p of
           Inl e \<Rightarrow> True
         | Inr (root', p') \<Rightarrow> undeclared name n (root', p'))
      else True)"

lemma parseStatement_global:
  assumes "ttype (currentToken p) = GLOBAL" "eat GLOBAL p = Inr p1" "eat IDENTIFIER p1 = Inr p2"
    "eat EQUALS p2 = Inr p3" "parseValue p3 = Inr (v, p4)"
  shows "parseStatement root p =
    Inr (root, p4\<lparr>constants := map_assign (tvalue (currentToken p1)) v (constants p)\<rparr>)"
proof -
  have "constants p4 = constants p"
    using eat_constants [OF assms(2)] eat_constants [OF assms(3)] eat_constants [OF assms(4)]
      parseValue_constants [OF assms(5)] by simp
  then show ?thesis using assms by (simp add: parseStatement_def)
qed

lemma parseStatement_table:
  assumes "parseStatement root p = Inr (root', p')"
  shows "if ttype (currentToken p) = GLOBAL
    then \<exists>p1 p2 p3 v p4. eat GLOBAL p = Inr p1 \<and> eat IDENTIFIER p1 = Inr p2 \<and>
      eat EQUALS p2 = Inr p3 \<and> parseValue p3 = Inr (v, p4) \<and>
      tvalue (currentToken p1) = tvalue (fst (nextToken (lexer p))) \<and>
      p' = p4\<lparr>constants := map_assign (tvalue (currentToken p1)) v (constants p)\<rparr>
    else constants p' = constants p"
  using assms
proof (cases rule: parseStatement_InrE)
  case (global p1 p2 p3 v p4)
  have c: "constants p4 = constants p"
    using eat_constants [OF global(2)] eat_constants [OF global(3)]
      eat_constants [OF global(4)] parseValue_constants [OF global(5)] by simp
  have n: "tvalue (currentToken p1) = tvalue (fst (nextToken (lexer p)))"
    using eat_currentToken [OF global(2)] by simp
  have "p' = p4\<lparr>constants := map_assign (tvalue (currentToken p1)) v (constants p)\<rparr>"
    using global(7) c by simp
  then show ?thesis using global(1-5) n by auto
next
  case (assignment p1 p2 v)
  have "constants p' = constants p"
    using eat_constants [OF assignment(2)] eat_constants [OF assignment(3)]
      parseValue_constants [OF assignment(4)] by simp
  then show ?thesis using assignment(1) by simp
next
  case (block obj)
  have "constants p' = constants p" using parseObject_constants [OF block(2)] .
  then show ?thesis using block(1) by simp
qed

lemma parseStatement_other_names:
  assumes "parseStatement root p = Inr (root', p')"
    "\<not> (ttype (currentToken p) = GLOBAL \<and> tvalue (fst (nextToken (lexer p))) = name)"
  shows "map_of (constants p') name = map_of (constants p) name"
proof (cases "ttype (currentToken p) = GLOBAL")
  case True
  then have "\<exists>p1 p2 p3 v p4. eat GLOBAL p = Inr p1 \<and> eat IDENTIFIER p1 = Inr p2 \<and>
      eat EQUALS p2 = Inr p3 \<and> parseValue p3 = Inr (v, p4) \<and>
      tvalue (currentToken p1) = tvalue (fst (nextToken (lexer p))) \<and>
      p' = p4\<lparr>constants := map_assign (tvalue (currentToken p1)) v (constants p)\<rparr>"
    using parseStatement_table [OF assms(1)] by (simp only: if_True)
  then obtain p1 :: Parser and v :: ASTNode and p4 :: Parser where
    n: "tvalue (currentToken p1) = tvalue (fst (nextToken (lexer p)))" and
    p': "p' = p4\<lparr>constants := map_assign (tvalue (currentToken p1)) v (constants p)\<rparr>"
    by blast
  have "tvalue (currentToken p1) \<noteq> name" using assms(2) True n by simp
  then show ?thesis by (simp add: p' map_of_map_assign)
next
  case False
  then show ?thesis using parseStatement_table [OF assms(1)] by simp
qed

lemma parseStatement_dom:
  assumes "parseStatement root p = Inr (root', p')"
  shows "dom (map_of (constants p)) \<subseteq> dom (map_of (constants p'))"
proof (cases "ttype (currentToken p) = GLOBAL")
  case True
  then have "\<exists>p1 p2 p3 v p4. eat GLOBAL p = Inr p1 \<and> eat IDENTIFIER p1 = Inr p2 \<and>
      eat EQUALS p2 = Inr p3 \<and> parseValue p3 = Inr (v, p4) \<and>
      tvalue (currentToken p1) = tvalue (fst (nextToken (lexer p))) \<and>
      p' = p4\<lparr>constants := map_assign (tvalue (currentToken p1)) v (constants p)\<rparr>"
    using parseStatement_table [OF assms(1)] by (simp only: if_True)
  then obtain p1 :: Parser and v :: ASTNode and p4 :: Parser where
    "p' = p4\<lparr>constants := map_assign (tvalue (currentToken p1)) v (constants p)\<rparr>"
    by blast
  then show ?thesis by (auto simp: map_of_map_assign)
next
  case False
  then show ?thesis using parseStatement_table [OF assms(1)] by simp
qed

lemma parseLoop_dom:
  "parseLoop root p = Inr (root', p') \<Longrightarrow>
     dom (map_of (constants p)) \<subseteq> dom (map_of (constants p'))"
proof (induction root p rule: parseLoop.induct)
  case (1 root p)
  from 1(2) show ?case
  proof (cases rule: parseLoop_InrE)
    case (step r1 p1)
    have "dom (map_of (constants p)) \<subseteq> dom (map_of (constants p1))"
      using step(2) by (rule parseStatement_dom)
    moreover have "dom (map_of (constants p1)) \<subseteq> dom (map_of (constants p'))"
      using 1(1) [OF step(1,2) refl step(3)] .
    ultimately show ?thesis by simp
  next
    case finish
    then show ?thesis by simp
  qed
qed

lemma statements_parseLoop:
  "statements n (root, p) = Inr (root', p') \<Longrightarrow> parseLoop root p = parseLoop root' p'"
proof (induction n arbitrary: root p)
  case 0
  then show ?case by simp
next
  case (Suc n)
  show ?case
  proof (cases "ttype (currentToken p) \<noteq> EOF_TOKEN")
    case True
    then obtain r1 p1 where s: "parseStatement root p = Inr (r1, p1)"
      and rest: "statements n (r1, p1) = Inr (root', p')"
      using Suc.prems by (cases "parseStatement root p") auto
    have "parseLoop root p = parseLoop r1 p1"
      using True s by (simp add: parseLoop.simps [of root p])
    then show ?thesis using Suc.IH [OF rest] by simp
  next
    case False
    then show ?thesis using Suc.prems by simp
  qed
qed

lemma statements_undeclared:
  "statements n (root, p) = Inr (root', p') \<Longrightarrow> undeclared name n (root, p) \<Longrightarrow>
     map_of (constants p') name = map_of (constants p) name"
proof (induction n arbitrary: root p)
  case 0
  then show ?case by simp
next
  case (Suc n)
  show ?case
  proof (cases "ttype (currentToken p) \<noteq> EOF_TOKEN")
    case True
    then obtain r1 p1 where s: "parseStatement root p = Inr (r1, p1)"
      and rest: "statements n (r1, p1) = Inr (root', p')"
      using Suc.prems(1) by (cases "parseStatement root p") auto
    have nd: "\<not> (ttype (currentToken p) = GLOBAL \<and> tvalue (fst (nextToken (lexer p))) = name)"
      and u: "undeclared name n (r1, p1)"
      using Suc.prems(2) True s by simp_all
    have "map_of (constants p1) name = map_of (constants p) name"
      using s nd by (rule parseStatement_other_names)
    then show ?thesis using Suc.IH [OF rest u] by simp
  next
    case False
    then show ?thesis using Suc.prems by simp
  qed
qed

lemma parseValue_reference:
  assumes "ttype (currentToken r) = QUESTION" "eat QUESTION r = Inr r1"
    "eat LBRACKET r1 = Inr r2" "eat IDENTIFIER r2 = Inr r3" "eat RBRACKET r3 = Inr r4"
    "map_of (constants r) (tvalue (currentToken r2)) = Some v"
  shows "parseValue r = Inr (v, r4)"
proof -
  have "constants r4 = constants r"
    using eat_constants [OF assms(2)] eat_constants [OF assms(3)] eat_constants [OF assms(4)]
      eat_constants [OF assms(5)] by simp
  then show ?thesis using assms by (simp add: parseValue.simps [of r])
qed

section \<open>The properties, claim by claim\<close>



text \<open>
  C2. A reference \<^verbatim>\<open>?[NAME]\<close> is looked up in the constant table the parser has when it
  reads the reference: without an entry the result is the unknown-constant error (and
  \<^verbatim>\<open>parse\<close> returns no tree), with one it is the very node of the table, address and
  all, and nothing is allocated. \<^verbatim>\<open>global MAX = 0x10\<close>, newline, \<^verbatim>\<open>size = ?[MAX]\<close> gives
  \<^verbatim>\<open>"size": 16\<close>, the node under \<^verbatim>\<open>size\<close> being the one the declaration made (address 1);
  \<^verbatim>\<open>x = ?[UNDEFINED]\<close> and a reference before its declaration fail.
\<close>

theorem C2_constant_reference:
  assumes "ttype (currentToken p) = QUESTION" "eat QUESTION p = Inr p1"
    "eat LBRACKET p1 = Inr p2" "eat IDENTIFIER p2 = Inr p3" "eat RBRACKET p3 = Inr p4"
  shows
    "parseValue p =
       (case map_of (constants p) (tvalue (currentToken p2)) of
          None \<Rightarrow> Inl (UnknownConstant (tvalue (currentToken p2)))
        | Some node \<Rightarrow> Inr (node, p4)) \<and>
     constants p4 = constants p \<and> allocated p4 = allocated p \<and>
     parse_text (''global MAX = 0x10'' @ [CHR 0x0A] @ ''size = ?[MAX]'') =
       Inr (ObjectNode 0 [(''size'', NumberNode 1 16)]) \<and>
     translate (''global MAX = 0x10'' @ [CHR 0x0A] @ ''size = ?[MAX]'') =
       Inr (''{'' @ [CHR 0x0A] @ ''  '' @ [CHR 0x22] @ ''size'' @ [CHR 0x22] @ '': 16'' @
            [CHR 0x0A] @ ''}'') \<and>
     parse_text ''x = ?[UNDEFINED]'' = Inl (UnknownConstant ''UNDEFINED'') \<and>
     parse_text ''x = ?[A] global A = 0x01'' = Inl (UnknownConstant ''A'')"
proof -
  have c: "constants p4 = constants p"
    using eat_constants [OF assms(2)] eat_constants [OF assms(3)] eat_constants [OF assms(4)]
      eat_constants [OF assms(5)] by simp
  have a: "allocated p4 = allocated p"
    using eat_allocated [OF assms(2)] eat_allocated [OF assms(3)] eat_allocated [OF assms(4)]
      eat_allocated [OF assms(5)] by simp
  have "parseValue p =
       (case map_of (constants p) (tvalue (currentToken p2)) of
          None \<Rightarrow> Inl (UnknownConstant (tvalue (currentToken p2)))
        | Some node \<Rightarrow> Inr (node, p4))"
    using assms by (simp add: parseValue.simps [of p] c)
  moreover have "parse_text (''global MAX = 0x10'' @ [CHR 0x0A] @ ''size = ?[MAX]'') =
       Inr (ObjectNode 0 [(''size'', NumberNode 1 16)])"
    by code_simp
  moreover have "translate (''global MAX = 0x10'' @ [CHR 0x0A] @ ''size = ?[MAX]'') =
       Inr (''{'' @ [CHR 0x0A] @ ''  '' @ [CHR 0x22] @ ''size'' @ [CHR 0x22] @ '': 16'' @
            [CHR 0x0A] @ ''}'')"
    by code_simp
  moreover have "parse_text ''x = ?[UNDEFINED]'' = Inl (UnknownConstant ''UNDEFINED'')"
    by code_simp
  moreover have "parse_text ''x = ?[A] global A = 0x01'' = Inl (UnknownConstant ''A'')"
    by code_simp
  ultimately show ?thesis using c a by simp
qed

text \<open>
  The witness: the parser in front of \<^verbatim>\<open>?[A]\<close> with a table that binds \<^verbatim>\<open>A\<close> to the node
  at address 7.
\<close>

theorem C2_constant_reference_witness:
  "fst (projr (parseValue ((Parser_new (Lexer_new ''?[A]''))
      \<lparr>constants := [(''A'', BoolNode 7 True)], allocated := 8\<rparr>))) = BoolNode 7 True"
proof -
  define p where "p = (Parser_new (Lexer_new ''?[A]''))
      \<lparr>constants := [(''A'', BoolNode 7 True)], allocated := 8\<rparr>"
  define p1 where "p1 = projr (eat QUESTION p)"
  define p2 where "p2 = projr (eat LBRACKET p1)"
  define p3 where "p3 = projr (eat IDENTIFIER p2)"
  define p4 where "p4 = projr (eat RBRACKET p3)"
  have t0: "ttype (currentToken p) = QUESTION" unfolding p_def by code_simp
  have t1: "ttype (currentToken p1) = LBRACKET" unfolding p1_def p_def by code_simp
  have t2: "ttype (currentToken p2) = IDENTIFIER" unfolding p2_def p1_def p_def by code_simp
  have v2: "tvalue (currentToken p2) = ''A''" unfolding p2_def p1_def p_def by code_simp
  have t3: "ttype (currentToken p3) = RBRACKET"
    unfolding p3_def p2_def p1_def p_def by code_simp
  have e1: "eat QUESTION p = Inr p1" using t0 by (simp add: p1_def eat_def)
  have e2: "eat LBRACKET p1 = Inr p2" using t1 by (simp add: p2_def eat_def)
  have e3: "eat IDENTIFIER p2 = Inr p3" using t2 by (simp add: p3_def eat_def)
  have e4: "eat RBRACKET p3 = Inr p4" using t3 by (simp add: p4_def eat_def)
  have c: "constants p = [(''A'', BoolNode 7 True)]" by (simp add: p_def)
  have "fst (projr (parseValue p)) = BoolNode 7 True"
    using C2_constant_reference [OF t0 e1 e2 e3 e4, THEN conjunct1] by (simp add: v2 c)
  then show ?thesis by (simp add: p_def)
qed

text \<open>
  C3 as stated fails: a second \<^verbatim>\<open>global A\<close> replaces the first binding. After the first
  declaration the table binds \<^verbatim>\<open>A\<close> to the number 1 (address 1); the reference after the
  second declaration yields the number 2 (address 2).
\<close>

theorem C3_rebinding_counterexample:
  "map_of (constants (snd (projr (parseStatement []
      ((Parser_new (Lexer_new ''global A = 0x01 global A = 0x02 x = ?[A]''))
        \<lparr>allocated := 1\<rparr>))))) ''A'' = Some (NumberNode 1 1) \<and>
   parse_text ''global A = 0x01 global A = 0x02 x = ?[A]'' =
     Inr (ObjectNode 0 [(''x'', NumberNode 2 2)])"
  by code_simp

text \<open>
  C3 (as the code has it). A turn of the top-level loop writes the constant table only when
  it is a \<^verbatim>\<open>global\<close> declaration: it then binds the declared name to the value that
  \<^verbatim>\<open>parseValue\<close> returned for the declaration, replacing an earlier binding of that name
  and leaving every other name as it was. Every other turn, and every \<^verbatim>\<open>eat\<close>, value,
  array and object parsed inside a turn, leaves the table as it is, and no name is ever
  removed. So after a declaration and any number of turns that do not declare the name
  again, a reference to the name, read with the table of that moment, yields the declared
  value: the last declaration before the reference wins.
\<close>

theorem C3_constant_table:
  "(ttype (currentToken p) = GLOBAL \<and> eat GLOBAL p = Inr p1 \<and> eat IDENTIFIER p1 = Inr p2 \<and>
    eat EQUALS p2 = Inr p3 \<and> parseValue p3 = Inr (v, p4) \<longrightarrow>
      parseStatement root p =
        Inr (root, p4\<lparr>constants := map_assign (tvalue (currentToken p1)) v (constants p)\<rparr>) \<and>
      map_of (map_assign (tvalue (currentToken p1)) v (constants p)) =
        (map_of (constants p))(tvalue (currentToken p1) \<mapsto> v) \<and>
      (statements n
         (root, p4\<lparr>constants := map_assign (tvalue (currentToken p1)) v (constants p)\<rparr>) =
         Inr (root', q) \<and>
       undeclared (tvalue (currentToken p1)) n
         (root, p4\<lparr>constants := map_assign (tvalue (currentToken p1)) v (constants p)\<rparr>) \<and>
       constants r = constants q \<and> ttype (currentToken r) = QUESTION \<and>
       eat QUESTION r = Inr r1 \<and> eat LBRACKET r1 = Inr r2 \<and> eat IDENTIFIER r2 = Inr r3 \<and>
       eat RBRACKET r3 = Inr r4 \<and> tvalue (currentToken r2) = tvalue (currentToken p1) \<longrightarrow>
         parseValue r = Inr (v, r4))) \<and>
   (parseStatement root s = Inr (root', s') \<longrightarrow>
      (if ttype (currentToken s) = GLOBAL
       then \<exists>s1 s2 s3 w s4. eat GLOBAL s = Inr s1 \<and> eat IDENTIFIER s1 = Inr s2 \<and>
         eat EQUALS s2 = Inr s3 \<and> parseValue s3 = Inr (w, s4) \<and>
         tvalue (currentToken s1) = tvalue (fst (nextToken (lexer s))) \<and>
         s' = s4\<lparr>constants := map_assign (tvalue (currentToken s1)) w (constants s)\<rparr>
       else constants s' = constants s) \<and>
      dom (map_of (constants s)) \<subseteq> dom (map_of (constants s'))) \<and>
   (eat t s = Inr s' \<longrightarrow> constants s' = constants s) \<and>
   (parseValue s = Inr (node, s') \<longrightarrow> constants s' = constants s) \<and>
   (parseObject s = Inr (node, s') \<longrightarrow> constants s' = constants s) \<and>
   (parseLoop root s = Inr (root', s') \<longrightarrow>
      dom (map_of (constants s)) \<subseteq> dom (map_of (constants s'))) \<and>
   (statements n (root, s) = Inr (root', s') \<longrightarrow> parseLoop root s = parseLoop root' s') \<and>
   (statements n (root, s) = Inr (root', s') \<and> undeclared name n (root, s) \<longrightarrow>
      map_of (constants s') name = map_of (constants s) name)"
proof -
  have a: "ttype (currentToken p) = GLOBAL \<and> eat GLOBAL p = Inr p1 \<and> eat IDENTIFIER p1 = Inr p2 \<and>
    eat EQUALS p2 = Inr p3 \<and> parseValue p3 = Inr (v, p4) \<longrightarrow>
      parseStatement root p =
        Inr (root, p4\<lparr>constants := map_assign (tvalue (currentToken p1)) v (constants p)\<rparr>) \<and>
      map_of (map_assign (tvalue (currentToken p1)) v (constants p)) =
        (map_of (constants p))(tvalue (currentToken p1) \<mapsto> v) \<and>
      (statements n
         (root, p4\<lparr>constants := map_assign (tvalue (currentToken p1)) v (constants p)\<rparr>) =
         Inr (root', q) \<and>
       undeclared (tvalue (currentToken p1)) n
         (root, p4\<lparr>constants := map_assign (tvalue (currentToken p1)) v (constants p)\<rparr>) \<and>
       constants r = constants q \<and> ttype (currentToken r) = QUESTION \<and>
       eat QUESTION r = Inr r1 \<and> eat LBRACKET r1 = Inr r2 \<and> eat IDENTIFIER r2 = Inr r3 \<and>
       eat RBRACKET r3 = Inr r4 \<and> tvalue (currentToken r2) = tvalue (currentToken p1) \<longrightarrow>
         parseValue r = Inr (v, r4))"
  proof (intro impI conjI; (elim conjE)?)
    assume d: "ttype (currentToken p) = GLOBAL" "eat GLOBAL p = Inr p1"
      "eat IDENTIFIER p1 = Inr p2" "eat EQUALS p2 = Inr p3" "parseValue p3 = Inr (v, p4)"
    show "parseStatement root p =
        Inr (root, p4\<lparr>constants := map_assign (tvalue (currentToken p1)) v (constants p)\<rparr>)"
      using d by (rule parseStatement_global)
    show "map_of (map_assign (tvalue (currentToken p1)) v (constants p)) =
        (map_of (constants p))(tvalue (currentToken p1) \<mapsto> v)"
      by (rule map_of_map_assign)
    assume u: "statements n
         (root, p4\<lparr>constants := map_assign (tvalue (currentToken p1)) v (constants p)\<rparr>) =
         Inr (root', q)"
      "undeclared (tvalue (currentToken p1)) n
         (root, p4\<lparr>constants := map_assign (tvalue (currentToken p1)) v (constants p)\<rparr>)"
      and c: "constants r = constants q"
      and e: "ttype (currentToken r) = QUESTION" "eat QUESTION r = Inr r1"
        "eat LBRACKET r1 = Inr r2" "eat IDENTIFIER r2 = Inr r3" "eat RBRACKET r3 = Inr r4"
      and nm: "tvalue (currentToken r2) = tvalue (currentToken p1)"
    have "map_of (constants q) (tvalue (currentToken p1)) =
        map_of (constants (p4\<lparr>constants := map_assign (tvalue (currentToken p1)) v
          (constants p)\<rparr>)) (tvalue (currentToken p1))"
      using u by (rule statements_undeclared)
    then have "map_of (constants r) (tvalue (currentToken r2)) = Some v"
      by (simp add: c nm map_of_map_assign)
    with e show "parseValue r = Inr (v, r4)" by (rule parseValue_reference)
  qed
  have b: "parseStatement root s = Inr (root', s') \<longrightarrow>
      (if ttype (currentToken s) = GLOBAL
       then \<exists>s1 s2 s3 w s4. eat GLOBAL s = Inr s1 \<and> eat IDENTIFIER s1 = Inr s2 \<and>
         eat EQUALS s2 = Inr s3 \<and> parseValue s3 = Inr (w, s4) \<and>
         tvalue (currentToken s1) = tvalue (fst (nextToken (lexer s))) \<and>
         s' = s4\<lparr>constants := map_assign (tvalue (currentToken s1)) w (constants s)\<rparr>
       else constants s' = constants s) \<and>
      dom (map_of (constants s)) \<subseteq> dom (map_of (constants s'))"
    using parseStatement_table [of root s root' s'] parseStatement_dom [of root s root' s']
    by blast
  have c: "eat t s = Inr s' \<longrightarrow> constants s' = constants s"
    using eat_constants [of t s s'] by blast
  have d: "parseValue s = Inr (node, s') \<longrightarrow> constants s' = constants s"
    using parseValue_constants [of s node s'] by blast
  have e: "parseObject s = Inr (node, s') \<longrightarrow> constants s' = constants s"
    using parseObject_constants [of s node s'] by blast
  have f: "parseLoop root s = Inr (root', s') \<longrightarrow>
      dom (map_of (constants s)) \<subseteq> dom (map_of (constants s'))"
    using parseLoop_dom [of root s root' s'] by blast
  have g: "statements n (root, s) = Inr (root', s') \<longrightarrow> parseLoop root s = parseLoop root' s'"
    using statements_parseLoop [of n root s root' s'] by blast
  have h: "statements n (root, s) = Inr (root', s') \<and> undeclared name n (root, s) \<longrightarrow>
      map_of (constants s') name = map_of (constants s) name"
    using statements_undeclared [of n root s root' s' name] by blast
  show ?thesis
    by (rule conjI [OF a conjI [OF b conjI [OF c conjI [OF d conjI [OF e conjI [OF f
      conjI [OF g h]]]]]]])
qed

text \<open>
  The witness: in \<^verbatim>\<open>global A = 0x01 x = 0x02 y = ?[A]\<close> the declaration binds \<^verbatim>\<open>A\<close> to the
  number node at address 1, the assignment to \<^verbatim>\<open>x\<close> is one turn of the loop that declares
  nothing, and the reference in the assignment to \<^verbatim>\<open>y\<close> yields that node. The parser on
  \<^verbatim>\<open>{}\<close> with a table that binds \<^verbatim>\<open>A\<close> keeps its table.
\<close>

theorem C3_constant_table_witness:
  "parseStatement []
     ((Parser_new (Lexer_new ''global A = 0x01 x = 0x02 y = ?[A]''))\<lparr>allocated := 1\<rparr>) =
     Inr ([], \<lparr>lexer = \<lparr>input = ''global A = 0x01 x = 0x02 y = ?[A]'', position = 17, line = 1,
                       column = 18\<rparr>,
              currentToken = \<lparr>ttype = IDENTIFIER, tvalue = ''x'', tline = 1, tcolumn = 17\<rparr>,
              constants = [(''A'', NumberNode 1 1)], allocated = 2\<rparr>) \<and>
   fst (projr (parseValue (projr (eat EQUALS (projr (eat IDENTIFIER (snd (projr
     (statements 2
       ([], (Parser_new (Lexer_new ''global A = 0x01 x = 0x02 y = ?[A]''))
          \<lparr>allocated := 1\<rparr>)))))))))) = NumberNode 1 1 \<and>
   constants (snd (projr (parseValue ((Parser_new (Lexer_new ''{}''))
      \<lparr>constants := [(''A'', BoolNode 7 True)], allocated := 8\<rparr>)))) = [(''A'', BoolNode 7 True)] \<and>
   constants (snd (projr (parseLoop [] ((Parser_new (Lexer_new ''{}''))
      \<lparr>constants := [(''A'', BoolNode 7 True)], allocated := 8\<rparr>)))) = [(''A'', BoolNode 7 True)]"
proof -
  define p where
    "p = (Parser_new (Lexer_new ''global A = 0x01 x = 0x02 y = ?[A]''))\<lparr>allocated := 1\<rparr>"
  define p1 where "p1 = projr (eat GLOBAL p)"
  define p2 where "p2 = projr (eat IDENTIFIER p1)"
  define p3 where "p3 = projr (eat EQUALS p2)"
  define p4 where "p4 = snd (projr (parseValue p3))"
  define p' where "p' = \<lparr>lexer = \<lparr>input = ''global A = 0x01 x = 0x02 y = ?[A]'', position = 17,
      line = 1, column = 18\<rparr>,
    currentToken = \<lparr>ttype = IDENTIFIER, tvalue = ''x'', tline = 1, tcolumn = 17\<rparr>,
    constants = [(''A'', NumberNode 1 1)], allocated = 2\<rparr>"
  define q where "q = snd (projr (statements (Suc 0) ([], p')))"
  define r where "r = projr (eat EQUALS (projr (eat IDENTIFIER q)))"
  define r1 where "r1 = projr (eat QUESTION r)"
  define r2 where "r2 = projr (eat LBRACKET r1)"
  define r3 where "r3 = projr (eat IDENTIFIER r2)"
  define r4 where "r4 = projr (eat RBRACKET r3)"
  note defs = r4_def r3_def r2_def r1_def r_def q_def p'_def p4_def p3_def p2_def p1_def p_def
  have t0: "ttype (currentToken p) = GLOBAL" unfolding defs by code_simp
  have t1: "ttype (currentToken p1) = IDENTIFIER" unfolding defs by code_simp
  have n1: "tvalue (currentToken p1) = ''A''" unfolding defs by code_simp
  have t2: "ttype (currentToken p2) = EQUALS" unfolding defs by code_simp
  have e1: "eat GLOBAL p = Inr p1" using t0 by (simp add: p1_def eat_def)
  have e2: "eat IDENTIFIER p1 = Inr p2" using t1 by (simp add: p2_def eat_def)
  have e3: "eat EQUALS p2 = Inr p3" using t2 by (simp add: p3_def eat_def)
  have pv: "parseValue p3 = Inr (NumberNode 1 1, p4)" unfolding defs by code_simp
  have cp: "constants p = []" by (simp add: p_def Parser_new_def)
  have p'eq: "p4\<lparr>constants := map_assign (tvalue (currentToken p1)) (NumberNode 1 1) (constants p)\<rparr> = p'"
    unfolding n1 cp unfolding defs by code_simp
  have st: "statements (Suc 0) ([], p') = Inr ([(''x'', NumberNode 2 2)], q)"
    unfolding defs by code_simp
  have un: "undeclared ''A'' (Suc 0) ([], p')" unfolding defs by code_simp
  have tq: "ttype (currentToken q) = IDENTIFIER" unfolding defs by code_simp
  have tq1: "ttype (currentToken (projr (eat IDENTIFIER q))) = EQUALS" unfolding defs by code_simp
  have cr: "constants r = constants q"
    using tq tq1 by (simp add: r_def eat_def)
  have u0: "ttype (currentToken r) = QUESTION" unfolding defs by code_simp
  have u1: "ttype (currentToken r1) = LBRACKET" unfolding defs by code_simp
  have u2: "ttype (currentToken r2) = IDENTIFIER" unfolding defs by code_simp
  have n2: "tvalue (currentToken r2) = ''A''" unfolding defs by code_simp
  have u3: "ttype (currentToken r3) = RBRACKET" unfolding defs by code_simp
  have f1: "eat QUESTION r = Inr r1" using u0 by (simp add: r1_def eat_def)
  have f2: "eat LBRACKET r1 = Inr r2" using u1 by (simp add: r2_def eat_def)
  have f3: "eat IDENTIFIER r2 = Inr r3" using u2 by (simp add: r3_def eat_def)
  have f4: "eat RBRACKET r3 = Inr r4" using u3 by (simp add: r4_def eat_def)
  note inst = C3_constant_table [of p p1 p2 p3 "NumberNode 1 1" p4 "[]" "Suc 0"
      "[(''x'', NumberNode 2 2)]" q r r1 r2 r3 r4, THEN conjunct1, unfolded p'eq]
  have decl: "parseStatement [] p = Inr ([], p')"
    using inst t0 e1 e2 e3 pv by blast
  have "parseValue r = Inr (NumberNode 1 1, r4)"
    using inst t0 e1 e2 e3 pv st un cr u0 f1 f2 f3 f4 n1 n2 by simp
  then have ref: "fst (projr (parseValue r)) = NumberNode 1 1" by simp
  have two: "statements 2 ([], p) = statements (Suc 0) ([], p')"
    using decl t0 by (simp add: numeral_2_eq_2)
  define s where "s = (Parser_new (Lexer_new ''{}''))
      \<lparr>constants := [(''A'', BoolNode 7 True)], allocated := 8\<rparr>"
  define s' where "s' = \<lparr>lexer = \<lparr>input = ''{}'', position = 2, line = 1, column = 3\<rparr>,
       currentToken = \<lparr>ttype = EOF_TOKEN, tvalue = [], tline = 1, tcolumn = 3\<rparr>,
       constants = [(''A'', BoolNode 7 True)], allocated = 9\<rparr>"
  have v: "parseValue s = Inr (ObjectNode 8 [], s')" unfolding s_def s'_def by code_simp
  have o: "parseObject s = Inr (ObjectNode 8 [], s')" unfolding s_def s'_def by code_simp
  have l: "parseLoop [] s = Inr ([(''unnamed'', ObjectNode 8 [])], s')"
    unfolding s_def s'_def by code_simp
  have cs: "constants s = [(''A'', BoolNode 7 True)]" by (simp add: s_def)
  note inst2 = C3_constant_table [where s = s and s' = s' and node = "ObjectNode 8 []"
      and root = "[]" and root' = "[(''unnamed'', ObjectNode 8 [])]"]
  have "constants s' = constants s" using inst2 v by blast
  moreover have "constants s' = constants s" using inst2 o by blast
  moreover have "dom (map_of (constants s)) \<subseteq> dom (map_of (constants s'))"
    using inst2 l by blast
  ultimately have k: "constants (snd (projr (parseValue s))) = [(''A'', BoolNode 7 True)]"
    "constants (snd (projr (parseLoop [] s))) = [(''A'', BoolNode 7 True)]"
    using v l cs by simp_all
  show ?thesis
    using decl ref k unfolding r_def q_def two [symmetric] unfolding p_def p'_def s_def by blast
qed

text \<open>
  C4 as stated fails: an object with an entry is written on several lines, by the only
  rule \<^verbatim>\<open>toJSON\<close> has for it, also when it is an element of an array.
\<close>

theorem C4_object_in_array_counterexample:
  "parse_text ''v = #( { a = 0x01 } )'' =
     Inr (ObjectNode 0 [(''v'', ArrayNode 1 [ObjectNode 2 [(''a'', NumberNode 3 1)]])]) \<and>
   toJSON (ArrayNode 1 [ObjectNode 2 [(''a'', NumberNode 3 1)]]) 2 =
     ''[{'' @ [CHR 0x0A] @ ''  '' @ [CHR 0x22] @ ''a'' @ [CHR 0x22] @ '': 1'' @ [CHR 0x0A] @ ''}]'' \<and>
   CHR 0x0A \<in> set (toJSON (ArrayNode 1 [ObjectNode 2 [(''a'', NumberNode 3 1)]]) 2)"
  by code_simp

text \<open>
  C4 (as the code has it). An array is written as \<^verbatim>\<open>[\<close>, the texts of its elements joined
  by a comma and a space, then \<^verbatim>\<open>]\<close>. The array adds no line break of its own: its text
  has one exactly when one of its elements is written with one, that is when an element is
  an object with an entry, a string holding a line break, or an array with such an element
  at any depth. So an array of numbers, booleans, strings without a line break, empty
  objects and arrays of these is on one line:
  \<^verbatim>\<open>s = { v = #( 0x01 0x02 ) }\<close> writes \<^verbatim>\<open>"v": [1, 2]\<close> on one line inside the braces.
\<close>

theorem C4_array_on_one_line:
  "toJSON (ArrayNode a elements) indent =
     ''['' @ joined '', '' (map (\<lambda>e. toJSON e 0) elements) @ '']'' \<and>
   (CHR 0x0A \<in> set (toJSON node indent') \<longleftrightarrow> \<not> single_line node) \<and>
   (CHR 0x0A \<in> set (toJSON (ArrayNode a elements) indent) \<longleftrightarrow>
      (\<exists>e\<in>set elements. \<not> single_line e)) \<and>
   ((\<forall>e\<in>set elements. single_line e) \<longrightarrow>
      CHR 0x0A \<notin> set (toJSON (ArrayNode a elements) indent)) \<and>
   translate ''s = { v = #( 0x01 0x02 ) }'' =
     Inr (''{'' @ [CHR 0x0A] @
          ''  '' @ [CHR 0x22] @ ''s'' @ [CHR 0x22] @ '': {'' @ [CHR 0x0A] @
          ''    '' @ [CHR 0x22] @ ''v'' @ [CHR 0x22] @ '': [1, 2]'' @ [CHR 0x0A] @
          ''  }'' @ [CHR 0x0A] @ ''}'')"
proof -
  have a: "CHR 0x0A \<in> set (toJSON node indent') \<longleftrightarrow> \<not> single_line node"
    by (rule toJSON_newline_iff)
  have b: "CHR 0x0A \<in> set (toJSON (ArrayNode a elements) indent) \<longleftrightarrow>
      (\<exists>e\<in>set elements. \<not> single_line e)"
    using toJSON_newline_iff [of "ArrayNode a elements" indent] by simp
  have c: "(\<forall>e\<in>set elements. single_line e) \<longrightarrow>
      CHR 0x0A \<notin> set (toJSON (ArrayNode a elements) indent)"
    using b by blast
  have d: "translate ''s = { v = #( 0x01 0x02 ) }'' =
     Inr (''{'' @ [CHR 0x0A] @
          ''  '' @ [CHR 0x22] @ ''s'' @ [CHR 0x22] @ '': {'' @ [CHR 0x0A] @
          ''    '' @ [CHR 0x22] @ ''v'' @ [CHR 0x22] @ '': [1, 2]'' @ [CHR 0x0A] @
          ''  }'' @ [CHR 0x0A] @ ''}'')"
    by code_simp
  have e: "toJSON (ArrayNode a elements) indent =
     ''['' @ joined '', '' (map (\<lambda>e. toJSON e 0) elements) @ '']''"
    by simp
  show ?thesis by (rule conjI [OF e conjI [OF a conjI [OF b conjI [OF c d]]]])
qed

theorem C4_array_on_one_line_witness:
  "toJSON (ArrayNode 1 [ArrayNode 2 [NumberNode 3 1, BoolNode 4 True], ObjectNode 5 []]) 4 =
     ''[[1, true], {}]'' \<and>
   CHR 0x0A \<notin>
     set (toJSON (ArrayNode 1 [ArrayNode 2 [NumberNode 3 1, BoolNode 4 True], ObjectNode 5 []]) 4)"
proof -
  have h: "\<forall>e\<in>set [ArrayNode 2 [NumberNode 3 1, BoolNode 4 True], ObjectNode 5 []].
      single_line e"
    by simp
  have v: "toJSON (ArrayNode 1 [ArrayNode 2 [NumberNode 3 1, BoolNode 4 True], ObjectNode 5 []]) 4 =
     ''[[1, true], {}]''"
    by code_simp
  have "CHR 0x0A \<notin>
     set (toJSON (ArrayNode 1 [ArrayNode 2 [NumberNode 3 1, BoolNode 4 True], ObjectNode 5 []]) 4)"
    using C4_array_on_one_line [of 1 "[ArrayNode 2 [NumberNode 3 1, BoolNode 4 True], ObjectNode 5 []]" 4]
      h by blast
  then show ?thesis using v by blast
qed

text \<open>
  C5 as stated fails on the number token without digits, which \<^verbatim>\<open>nextToken\<close> returns for
  \<^verbatim>\<open>0x\<close>: it is neither decoded nor an overflow, \<^verbatim>\<open>stoll\<close> throws
  \<^verbatim>\<open>std::invalid_argument\<close>.
\<close>

theorem C5_empty_digits_counterexample:
  "ttype (currentToken (Parser_new (Lexer_new ''0x''))) = NUMBER \<and>
   parseValue (Parser_new (Lexer_new ''0x'')) = Inl InvalidArgument \<and>
   InvalidArgument \<noteq> OutOfRange"
  by code_simp

text \<open>
  C5 (as the code has it). A number token with at least one digit is decoded in base 16:
  when the value is at most 2^63 - 1 the parser makes a number node holding it and moves to
  the next token, otherwise the parse fails with \<^verbatim>\<open>std::out_of_range\<close>. The input
  \<^verbatim>\<open>port = 0x1A\<close> gives \<^verbatim>\<open>"port": 26\<close>.
\<close>

theorem C5_number_decode:
  assumes "currentToken p = fst (nextToken l)" "ttype (currentToken p) = NUMBER"
    "tvalue (currentToken p) \<noteq> []"
  shows
    "parseValue p =
       (if hexValue (tvalue (currentToken p)) \<le> 2 ^ 63 - 1
        then Inr (NumberNode (allocated p) (word_of_int (hexValue (tvalue (currentToken p)))),
               p\<lparr>allocated := allocated p + 1, lexer := snd (nextToken (lexer p)),
                 currentToken := fst (nextToken (lexer p))\<rparr>)
        else Inl OutOfRange) \<and>
     (hexValue (tvalue (currentToken p)) \<le> 2 ^ 63 - 1 \<longrightarrow>
        sint (word_of_int (hexValue (tvalue (currentToken p))) :: 64 word) =
          hexValue (tvalue (currentToken p))) \<and>
     hexValue ''1A'' = 26 \<and>
     translate ''port = 0x1A'' =
       Inr (''{'' @ [CHR 0x0A] @ ''  '' @ [CHR 0x22] @ ''port'' @ [CHR 0x22] @ '': 26'' @
            [CHR 0x0A] @ ''}'')"
proof -
  have hex: "\<forall>c\<in>set (tvalue (currentToken p)). isHexDigit c"
    using nextToken_hexToken [of l] assms(1,2) by (simp add: hexToken_def)
  have st: "stoll16 (tvalue (currentToken p)) =
      (if hexValue (tvalue (currentToken p)) > 2 ^ 63 - 1 then Inl OutOfRange
       else Inr (word_of_int (hexValue (tvalue (currentToken p)))))"
    using stoll16_hex [OF hex] assms(3) by simp
  have "parseValue p =
       (if hexValue (tvalue (currentToken p)) \<le> 2 ^ 63 - 1
        then Inr (NumberNode (allocated p) (word_of_int (hexValue (tvalue (currentToken p)))),
               p\<lparr>allocated := allocated p + 1, lexer := snd (nextToken (lexer p)),
                 currentToken := fst (nextToken (lexer p))\<rparr>)
        else Inl OutOfRange)"
    using assms(2) by (simp add: parseValue.simps [of p] st eat_same)
  moreover have "hexValue (tvalue (currentToken p)) \<le> 2 ^ 63 - 1 \<longrightarrow>
        sint (word_of_int (hexValue (tvalue (currentToken p))) :: 64 word) =
          hexValue (tvalue (currentToken p))"
    using hexValue_nonneg [OF hex] by (simp add: sint_word_of_int_64)
  moreover have "hexValue ''1A'' = 26" by code_simp
  moreover have "translate ''port = 0x1A'' =
       Inr (''{'' @ [CHR 0x0A] @ ''  '' @ [CHR 0x22] @ ''port'' @ [CHR 0x22] @ '': 26'' @
            [CHR 0x0A] @ ''}'')"
    by code_simp
  ultimately show ?thesis by blast
qed

theorem C5_number_decode_witness:
  "currentToken (Parser_new (Lexer_new ''0x1A'')) = fst (nextToken (Lexer_new ''0x1A'')) \<and>
   ttype (currentToken (Parser_new (Lexer_new ''0x1A''))) = NUMBER \<and>
   tvalue (currentToken (Parser_new (Lexer_new ''0x1A''))) = ''1A'' \<and>
   fst (projr (parseValue (Parser_new (Lexer_new ''0x1A'')))) = NumberNode 0 26 \<and>
   sint (word_of_int (hexValue ''1A'') :: 64 word) = 26"
proof -
  have h1: "currentToken (Parser_new (Lexer_new ''0x1A'')) = fst (nextToken (Lexer_new ''0x1A''))"
    by (simp add: Parser_new_def)
  have h2: "ttype (currentToken (Parser_new (Lexer_new ''0x1A''))) = NUMBER" by code_simp
  have h3: "tvalue (currentToken (Parser_new (Lexer_new ''0x1A''))) = ''1A''" by code_simp
  have h4: "hexValue ''1A'' = 26" by code_simp
  have h5: "allocated (Parser_new (Lexer_new ''0x1A'')) = 0" by (simp add: Parser_new_def)
  have ne: "tvalue (currentToken (Parser_new (Lexer_new ''0x1A''))) \<noteq> []" using h3 by simp
  note inst = C5_number_decode [OF h1 h2 ne]
  have "fst (projr (parseValue (Parser_new (Lexer_new ''0x1A'')))) = NumberNode 0 26"
    using inst [THEN conjunct1] by (simp add: h3 h4 h5)
  moreover have "sint (word_of_int (hexValue ''1A'') :: 64 word) = 26"
    using inst [THEN conjunct2, THEN conjunct1] by (simp add: h3 h4)
  ultimately show ?thesis using h1 h2 h3 by blast
qed

text \<open>
  C6. A string token whose text is exactly \<^verbatim>\<open>true\<close> or \<^verbatim>\<open>false\<close> becomes a boolean node,
  any other string token a string node holding the token's text as it is. The lexer gives
  the bare words \<^verbatim>\<open>true\<close> and \<^verbatim>\<open>false\<close> a string token, as it does a quoted literal.
  Both \<^verbatim>\<open>flag = true\<close> and \<^verbatim>\<open>flag = "true"\<close> serialize to \<^verbatim>\<open>"flag": true\<close>, and
  \<^verbatim>\<open>flag = "yes"\<close> to \<^verbatim>\<open>"flag": "yes"\<close>.
\<close>

theorem C6_string_tokens:
  assumes "ttype (currentToken p) = STRING"
  shows
    "parseValue p =
       Inr (if tvalue (currentToken p) = ''true'' \<or> tvalue (currentToken p) = ''false''
            then BoolNode (allocated p) (tvalue (currentToken p) = ''true'')
            else StringNode (allocated p) (tvalue (currentToken p)),
            p\<lparr>allocated := allocated p + 1, lexer := snd (nextToken (lexer p)),
              currentToken := fst (nextToken (lexer p))\<rparr>) \<and>
     toJSON (StringNode a s) indent = [CHR 0x22] @ s @ [CHR 0x22] \<and>
     wordType ''true'' = STRING \<and> wordType ''false'' = STRING \<and>
     ttype (fst (nextToken (Lexer_new ''true''))) = STRING \<and>
     tvalue (fst (nextToken (Lexer_new ''true''))) = ''true'' \<and>
     ttype (fst (nextToken (Lexer_new ([CHR 0x22] @ ''true'' @ [CHR 0x22])))) = STRING \<and>
     tvalue (fst (nextToken (Lexer_new ([CHR 0x22] @ ''true'' @ [CHR 0x22])))) = ''true'' \<and>
     translate ''flag = true'' =
       Inr (''{'' @ [CHR 0x0A] @ ''  '' @ [CHR 0x22] @ ''flag'' @ [CHR 0x22] @ '': true'' @
            [CHR 0x0A] @ ''}'') \<and>
     translate (''flag = '' @ [CHR 0x22] @ ''true'' @ [CHR 0x22]) =
       Inr (''{'' @ [CHR 0x0A] @ ''  '' @ [CHR 0x22] @ ''flag'' @ [CHR 0x22] @ '': true'' @
            [CHR 0x0A] @ ''}'') \<and>
     translate (''flag = '' @ [CHR 0x22] @ ''yes'' @ [CHR 0x22]) =
       Inr (''{'' @ [CHR 0x0A] @ ''  '' @ [CHR 0x22] @ ''flag'' @ [CHR 0x22] @ '': '' @
            [CHR 0x22] @ ''yes'' @ [CHR 0x22] @ [CHR 0x0A] @ ''}'')"
proof -
  have "parseValue p =
       Inr (if tvalue (currentToken p) = ''true'' \<or> tvalue (currentToken p) = ''false''
            then BoolNode (allocated p) (tvalue (currentToken p) = ''true'')
            else StringNode (allocated p) (tvalue (currentToken p)),
            p\<lparr>allocated := allocated p + 1, lexer := snd (nextToken (lexer p)),
              currentToken := fst (nextToken (lexer p))\<rparr>)"
    using assms by (simp add: parseValue.simps [of p] eat_same)
  moreover have "wordType ''true'' = STRING" "wordType ''false'' = STRING"
    by (simp_all add: wordType_def)
  moreover have "ttype (fst (nextToken (Lexer_new ''true''))) = STRING"
    "tvalue (fst (nextToken (Lexer_new ''true''))) = ''true''"
    "ttype (fst (nextToken (Lexer_new ([CHR 0x22] @ ''true'' @ [CHR 0x22])))) = STRING"
    "tvalue (fst (nextToken (Lexer_new ([CHR 0x22] @ ''true'' @ [CHR 0x22])))) = ''true''"
    by code_simp+
  moreover have "translate ''flag = true'' =
       Inr (''{'' @ [CHR 0x0A] @ ''  '' @ [CHR 0x22] @ ''flag'' @ [CHR 0x22] @ '': true'' @
            [CHR 0x0A] @ ''}'')"
    by code_simp
  moreover have "translate (''flag = '' @ [CHR 0x22] @ ''true'' @ [CHR 0x22]) =
       Inr (''{'' @ [CHR 0x0A] @ ''  '' @ [CHR 0x22] @ ''flag'' @ [CHR 0x22] @ '': true'' @
            [CHR 0x0A] @ ''}'')"
    by code_simp
  moreover have "translate (''flag = '' @ [CHR 0x22] @ ''yes'' @ [CHR 0x22]) =
       Inr (''{'' @ [CHR 0x0A] @ ''  '' @ [CHR 0x22] @ ''flag'' @ [CHR 0x22] @ '': '' @
            [CHR 0x22] @ ''yes'' @ [CHR 0x22] @ [CHR 0x0A] @ ''}'')"
    by code_simp
  ultimately show ?thesis by simp
qed

theorem C6_string_tokens_witness:
  "ttype (currentToken (Parser_new (Lexer_new ''false''))) = STRING \<and>
   fst (projr (parseValue (Parser_new (Lexer_new ''false'')))) = BoolNode 0 False"
proof -
  have h: "ttype (currentToken (Parser_new (Lexer_new ''false''))) = STRING" by code_simp
  have v: "tvalue (currentToken (Parser_new (Lexer_new ''false''))) = ''false''" by code_simp
  have a: "allocated (Parser_new (Lexer_new ''false'')) = 0" by (simp add: Parser_new_def)
  have "fst (projr (parseValue (Parser_new (Lexer_new ''false'')))) = BoolNode 0 False"
    using C6_string_tokens [OF h, THEN conjunct1] by (simp add: v a)
  then show ?thesis using h by simp
qed

text \<open>
  C7. Assigning to a key replaces what the map held at that key and changes nothing else;
  when the key was there already the map gets no new entry. In the tree of a successful
  parse no object has two entries with one key. \<^verbatim>\<open>{ a = 0x01 a = 0x02 }\<close> gives one
  \<^verbatim>\<open>"a": 2\<close>; a bare block at the top level is assigned to the key \<^verbatim>\<open>unnamed\<close> of the root,
  so of two bare blocks the second is the one that stays.
\<close>

theorem C7_last_write_wins:
  "map_of (map_assign k v m) = (map_of m)(k \<mapsto> v) \<and>
   (sorted_wrt (<) (map fst m) \<and> k \<in> fst ` set m \<longrightarrow>
      map fst (map_assign k v m) = map fst m) \<and>
   (parse_text text = Inr root \<and> ObjectNode a properties \<in> set (subnodes root) \<longrightarrow>
      distinct (map fst properties)) \<and>
   (ttype (currentToken p) = LBRACE \<and> parseObject p = Inr (obj, p') \<longrightarrow>
      parseStatement root0 p = Inr (map_assign ''unnamed'' obj root0, p')) \<and>
   parse_text ''{ a = 0x01 a = 0x02 }'' =
     Inr (ObjectNode 0 [(''unnamed'', ObjectNode 1 [(''a'', NumberNode 3 2)])]) \<and>
   translate ''{ a = 0x01 a = 0x02 }'' =
     Inr (''{'' @ [CHR 0x0A] @
          ''  '' @ [CHR 0x22] @ ''unnamed'' @ [CHR 0x22] @ '': {'' @ [CHR 0x0A] @
          ''    '' @ [CHR 0x22] @ ''a'' @ [CHR 0x22] @ '': 2'' @ [CHR 0x0A] @
          ''  }'' @ [CHR 0x0A] @ ''}'') \<and>
   parse_text ''{ a = 0x01 } { b = 0x02 }'' =
     Inr (ObjectNode 0 [(''unnamed'', ObjectNode 3 [(''b'', NumberNode 4 2)])])"
proof -
  have "distinct (map fst properties)"
    if "parse_text text = Inr root" "ObjectNode a properties \<in> set (subnodes root)"
  proof -
    have "wellformed (ObjectNode a properties)"
      using parse_text_wellformed [OF that(1)] that(2) by (rule wellformed_subnodes)
    then show ?thesis by (simp add: sorted_keys_distinct)
  qed
  moreover have "parseStatement root0 p = Inr (map_assign ''unnamed'' obj root0, p')"
    if "ttype (currentToken p) = LBRACE" "parseObject p = Inr (obj, p')"
    using that by (simp add: parseStatement_def)
  moreover have "parse_text ''{ a = 0x01 a = 0x02 }'' =
     Inr (ObjectNode 0 [(''unnamed'', ObjectNode 1 [(''a'', NumberNode 3 2)])])"
    by code_simp
  moreover have "translate ''{ a = 0x01 a = 0x02 }'' =
     Inr (''{'' @ [CHR 0x0A] @
          ''  '' @ [CHR 0x22] @ ''unnamed'' @ [CHR 0x22] @ '': {'' @ [CHR 0x0A] @
          ''    '' @ [CHR 0x22] @ ''a'' @ [CHR 0x22] @ '': 2'' @ [CHR 0x0A] @
          ''  }'' @ [CHR 0x0A] @ ''}'')"
    by code_simp
  moreover have "parse_text ''{ a = 0x01 } { b = 0x02 }'' =
     Inr (ObjectNode 0 [(''unnamed'', ObjectNode 3 [(''b'', NumberNode 4 2)])])"
    by code_simp
  ultimately show ?thesis
    using map_of_map_assign [of k v m] map_assign_replace_keys [of m k v] by blast
qed

theorem C7_last_write_wins_witness:
  "map fst (map_assign ''a'' (NumberNode 3 2) [(''a'', NumberNode 2 1)]) = [''a''] \<and>
   map_of (map_assign ''a'' (NumberNode 3 2) [(''a'', NumberNode 2 1)]) ''a'' =
     Some (NumberNode 3 2) \<and>
   distinct (map fst [(''a'', NumberNode 3 2)]) \<and>
   parseStatement [(''unnamed'', BoolNode 9 True)] (Parser_new (Lexer_new ''{}'')) =
     Inr ([(''unnamed'', ObjectNode 0 [])],
       \<lparr>lexer = \<lparr>input = ''{}'', position = 2, line = 1, column = 3\<rparr>,
        currentToken = \<lparr>ttype = EOF_TOKEN, tvalue = [], tline = 1, tcolumn = 3\<rparr>,
        constants = [], allocated = 1\<rparr>)"
proof -
  note inst = C7_last_write_wins [of "''a''" "NumberNode 3 2" "[(''a'', NumberNode 2 1)]"
      "''{ a = 0x01 a = 0x02 }''" "ObjectNode 0 [(''unnamed'', ObjectNode 1 [(''a'', NumberNode 3 2)])]"
      1 "[(''a'', NumberNode 3 2)]" "Parser_new (Lexer_new ''{}'')" "ObjectNode 0 []"
      "\<lparr>lexer = \<lparr>input = ''{}'', position = 2, line = 1, column = 3\<rparr>,
        currentToken = \<lparr>ttype = EOF_TOKEN, tvalue = [], tline = 1, tcolumn = 3\<rparr>,
        constants = [], allocated = 1\<rparr>" "[(''unnamed'', BoolNode 9 True)]"]
  have s: "sorted_wrt (<) (map fst [(''a'', NumberNode 2 1)]) \<and>
      ''a'' \<in> fst ` set [(''a'', NumberNode 2 1)]" by simp
  have h1: "parse_text ''{ a = 0x01 a = 0x02 }'' =
     Inr (ObjectNode 0 [(''unnamed'', ObjectNode 1 [(''a'', NumberNode 3 2)])])"
    by code_simp
  have h2: "ObjectNode 1 [(''a'', NumberNode 3 2)] \<in>
     set (subnodes (ObjectNode 0 [(''unnamed'', ObjectNode 1 [(''a'', NumberNode 3 2)])]))"
    by simp
  have h3: "ttype (currentToken (Parser_new (Lexer_new ''{}''))) = LBRACE" by code_simp
  have h4: "parseObject (Parser_new (Lexer_new ''{}'')) = Inr (ObjectNode 0 [],
      \<lparr>lexer = \<lparr>input = ''{}'', position = 2, line = 1, column = 3\<rparr>,
        currentToken = \<lparr>ttype = EOF_TOKEN, tvalue = [], tline = 1, tcolumn = 3\<rparr>,
        constants = [], allocated = 1\<rparr>)"
    by code_simp
  have m: "map_assign ''unnamed'' (ObjectNode 0 []) [(''unnamed'', BoolNode 9 True)] =
      [(''unnamed'', ObjectNode 0 [])]"
    by simp
  have "map fst (map_assign ''a'' (NumberNode 3 2) [(''a'', NumberNode 2 1)]) =
      map fst [(''a'', NumberNode 2 1)]"
    using inst s by blast
  moreover have "map_of (map_assign ''a'' (NumberNode 3 2) [(''a'', NumberNode 2 1)]) ''a'' =
     Some (NumberNode 3 2)"
    using inst by simp
  moreover have "distinct (map fst [(''a'', NumberNode 3 2)])" using inst h1 h2 by blast
  moreover have "parseStatement [(''unnamed'', BoolNode 9 True)] (Parser_new (Lexer_new ''{}'')) =
     Inr (map_assign ''unnamed'' (ObjectNode 0 []) [(''unnamed'', BoolNode 9 True)],
       \<lparr>lexer = \<lparr>input = ''{}'', position = 2, line = 1, column = 3\<rparr>,
        currentToken = \<lparr>ttype = EOF_TOKEN, tvalue = [], tline = 1, tcolumn = 3\<rparr>,
        constants = [], allocated = 1\<rparr>)"
    using inst h3 h4 by blast
  ultimately show ?thesis unfolding m by simp
qed

text \<open>
  C8 as stated fails on a text with a NUL byte: the string loop stops at the NUL, so the
  token holds only \<^verbatim>\<open>a\<close> although the characters up to the next double quote are \<^verbatim>\<open>a\<close>,
  NUL, \<^verbatim>\<open>b\<close>; and since \<^verbatim>\<open>advance\<close> does not move on a NUL, the next call returns an
  \<^verbatim>\<open>INVALID\<close> token and leaves the lexer where it was, so no later call returns the end.
\<close>

theorem C8_nul_byte_counterexample:
  "fst (nextToken (Lexer_new [CHR 0x22, CHR ''a'', CHR 0x00, CHR ''b'', CHR 0x22])) =
     \<lparr>ttype = STRING, tvalue = ''a'', tline = 1, tcolumn = 1\<rparr> \<and>
   snd (nextToken (Lexer_new [CHR 0x22, CHR ''a'', CHR 0x00, CHR ''b'', CHR 0x22])) =
     \<lparr>input = [CHR 0x22, CHR ''a'', CHR 0x00, CHR ''b'', CHR 0x22], position = 2, line = 1,
      column = 3\<rparr> \<and>
   nextToken \<lparr>input = [CHR 0x22, CHR ''a'', CHR 0x00, CHR ''b'', CHR 0x22], position = 2,
       line = 1, column = 3\<rparr> =
     (\<lparr>ttype = INVALID, tvalue = [CHR 0x00], tline = 1, tcolumn = 3\<rparr>,
      \<lparr>input = [CHR 0x22, CHR ''a'', CHR 0x00, CHR ''b'', CHR 0x22], position = 2, line = 1,
       column = 3\<rparr>)"
  by code_simp

text \<open>
  C8 (as the code has it). \<^verbatim>\<open>nextToken\<close> has no error to raise: it returns a token and the
  lexer after it, on the same text and no further from its end. On a text without a NUL
  byte, calling it again and again reaches the end token, after no more calls than there
  are characters left. A double quote starts a string token whose text is the characters
  behind the quote up to the next double quote, NUL byte or end of the text, taken as they
  are (a backslash is a character like any other); on a text without a NUL byte that is
  up to the next double quote or the end, and a string that is not closed takes all that
  is left, leaves the lexer at the end and is a string token all the same.
\<close>

theorem C8_nextToken:
  assumes "l' = skipWhitespace l"
  shows
    "input (snd (nextToken l)) = input l \<and> remaining (snd (nextToken l)) \<le> remaining l \<and>
     (CHR 0x00 \<notin> set (input l) \<longrightarrow>
        (\<exists>n\<le>remaining l.
           ttype (fst (nextToken (((\<lambda>x. snd (nextToken x)) ^^ n) l))) = EOF_TOKEN)) \<and>
     (position l' < length (input l') \<and> peek l' = CHR 0x22 \<longrightarrow>
        ttype (fst (nextToken l)) = STRING \<and>
        tvalue (fst (nextToken l)) =
          takeWhile (\<lambda>c. c \<noteq> CHR 0x22 \<and> c \<noteq> CHR 0x00) (drop (position l' + 1) (input l')) \<and>
        (CHR 0x00 \<notin> set (input l) \<longrightarrow>
           tvalue (fst (nextToken l)) =
             takeWhile (\<lambda>c. c \<noteq> CHR 0x22) (drop (position l' + 1) (input l'))) \<and>
        (CHR 0x00 \<notin> set (input l) \<and> CHR 0x22 \<notin> set (drop (position l' + 1) (input l')) \<longrightarrow>
           tvalue (fst (nextToken l)) = drop (position l' + 1) (input l') \<and>
           position (snd (nextToken l)) = length (input l))) \<and>
     tvalue (fst (nextToken (Lexer_new [CHR 0x22, CHR ''a'', CHR 0x5C, CHR 0x22, CHR ''b'', CHR 0x22]))) =
       [CHR ''a'', CHR 0x5C]"
proof -
  have inp: "input l' = input l" by (simp add: assms)
  have str: "ttype (fst (nextToken l)) = STRING \<and>
        tvalue (fst (nextToken l)) =
          takeWhile (\<lambda>c. c \<noteq> CHR 0x22 \<and> c \<noteq> CHR 0x00) (drop (position l' + 1) (input l')) \<and>
        (CHR 0x00 \<notin> set (input l) \<longrightarrow>
           tvalue (fst (nextToken l)) =
             takeWhile (\<lambda>c. c \<noteq> CHR 0x22) (drop (position l' + 1) (input l'))) \<and>
        (CHR 0x00 \<notin> set (input l) \<and> CHR 0x22 \<notin> set (drop (position l' + 1) (input l')) \<longrightarrow>
           tvalue (fst (nextToken l)) = drop (position l' + 1) (input l') \<and>
           position (snd (nextToken l)) = length (input l))"
    if pos: "position l' < length (input l')" and q: "peek l' = CHR 0x22"
  proof -
    define l1 where "l1 = snd (advance l')"
    define l2 where "l2 = snd (readString [] l1)"
    define rest where "rest = drop (position l' + 1) (input l')"
    have p1: "position l1 = position l' + 1" "input l1 = input l'"
      using q by (simp_all add: l1_def advance_position)
    have rs: "fst (readString [] l1) = takeWhile (\<lambda>c. c \<noteq> CHR 0x22 \<and> c \<noteq> CHR 0x00) rest"
      "position l2 = position l' + 1 + length (takeWhile (\<lambda>c. c \<noteq> CHR 0x22 \<and> c \<noteq> CHR 0x00) rest)"
      using readString_takeWhile [of "[]" l1] by (simp_all add: p1 l2_def rest_def)
    have i2: "input l2 = input l" by (simp add: l2_def p1 inp)
    have nt: "nextToken l =
        (\<lparr>ttype = STRING, tvalue = fst (readString [] l1), tline = line l', tcolumn = column l'\<rparr>,
         if peek l2 = CHR 0x22 then snd (advance l2) else l2)"
      using nextToken_string [of l] pos q
      by (simp add: assms [symmetric] inp l1_def [symmetric] l2_def [symmetric])
    have t: "ttype (fst (nextToken l)) = STRING"
      "tvalue (fst (nextToken l)) = takeWhile (\<lambda>c. c \<noteq> CHR 0x22 \<and> c \<noteq> CHR 0x00) rest"
      by (simp_all add: nt rs)
    have nf: "takeWhile (\<lambda>c. c \<noteq> CHR 0x22 \<and> c \<noteq> CHR 0x00) rest =
        takeWhile (\<lambda>c. c \<noteq> CHR 0x22) rest"
      if "CHR 0x00 \<notin> set (input l)"
    proof (rule takeWhile_cong [OF refl])
      fix c assume "c \<in> set rest"
      then have "c \<in> set (input l')" unfolding rest_def by (rule in_set_dropD)
      then have "c \<noteq> CHR 0x00" using that inp by auto
      then show "(c \<noteq> CHR 0x22 \<and> c \<noteq> CHR 0x00) = (c \<noteq> CHR 0x22)" by simp
    qed
    have open_string: "tvalue (fst (nextToken l)) = rest \<and>
        position (snd (nextToken l)) = length (input l)"
      if "CHR 0x00 \<notin> set (input l)" "CHR 0x22 \<notin> set rest"
    proof -
      have all: "takeWhile (\<lambda>c. c \<noteq> CHR 0x22 \<and> c \<noteq> CHR 0x00) rest = rest"
        using nf [OF that(1)] that(2) by (auto simp: takeWhile_eq_all_conv)
      have "position l2 = position l' + 1 + length rest" using rs(2) all by simp
      then have e: "position l2 = length (input l)" using pos inp by (simp add: rest_def)
      then have "peek l2 = CHR 0x00" by (simp add: peek_def i2)
      then have "snd (nextToken l) = l2" by (simp add: nt)
      then show ?thesis using e t(2) all by simp
    qed
    have "CHR 0x00 \<notin> set (input l) \<longrightarrow>
        tvalue (fst (nextToken l)) = takeWhile (\<lambda>c. c \<noteq> CHR 0x22) rest"
      using t(2) nf by simp
    moreover have "CHR 0x00 \<notin> set (input l) \<and> CHR 0x22 \<notin> set rest \<longrightarrow>
        tvalue (fst (nextToken l)) = rest \<and> position (snd (nextToken l)) = length (input l)"
      using open_string by blast
    ultimately show ?thesis
      using t unfolding rest_def by blast
  qed
  have a: "input (snd (nextToken l)) = input l" by simp
  have b: "remaining (snd (nextToken l)) \<le> remaining l" by (rule nextToken_remaining_le)
  have c: "CHR 0x00 \<notin> set (input l) \<longrightarrow>
        (\<exists>n\<le>remaining l.
           ttype (fst (nextToken (((\<lambda>x. snd (nextToken x)) ^^ n) l))) = EOF_TOKEN)"
    using reaches_EOF [of l] by blast
  have d: "position l' < length (input l') \<and> peek l' = CHR 0x22 \<longrightarrow>
        ttype (fst (nextToken l)) = STRING \<and>
        tvalue (fst (nextToken l)) =
          takeWhile (\<lambda>c. c \<noteq> CHR 0x22 \<and> c \<noteq> CHR 0x00) (drop (position l' + 1) (input l')) \<and>
        (CHR 0x00 \<notin> set (input l) \<longrightarrow>
           tvalue (fst (nextToken l)) =
             takeWhile (\<lambda>c. c \<noteq> CHR 0x22) (drop (position l' + 1) (input l'))) \<and>
        (CHR 0x00 \<notin> set (input l) \<and> CHR 0x22 \<notin> set (drop (position l' + 1) (input l')) \<longrightarrow>
           tvalue (fst (nextToken l)) = drop (position l' + 1) (input l') \<and>
           position (snd (nextToken l)) = length (input l))"
    using str by blast
  have e: "tvalue (fst (nextToken (Lexer_new [CHR 0x22, CHR ''a'', CHR 0x5C, CHR 0x22, CHR ''b'', CHR 0x22]))) =
       [CHR ''a'', CHR 0x5C]"
    by code_simp
  show ?thesis by (rule conjI [OF a conjI [OF b conjI [OF c conjI [OF d e]]]])
qed

text \<open>The witness: an open string, \<^verbatim>\<open>"ab\<close>, in a text without a NUL byte.\<close>

theorem C8_nextToken_witness:
  "ttype (fst (nextToken (Lexer_new [CHR 0x22, CHR ''a'', CHR ''b'']))) = STRING \<and>
   tvalue (fst (nextToken (Lexer_new [CHR 0x22, CHR ''a'', CHR ''b'']))) = ''ab'' \<and>
   position (snd (nextToken (Lexer_new [CHR 0x22, CHR ''a'', CHR ''b'']))) = 3 \<and>
   (\<exists>n\<le>3. ttype (fst (nextToken (((\<lambda>x. snd (nextToken x)) ^^ n)
      (Lexer_new [CHR 0x22, CHR ''a'', CHR ''b''])))) = EOF_TOKEN)"
proof -
  define l where "l = Lexer_new [CHR 0x22, CHR ''a'', CHR ''b'']"
  have l: "l = \<lparr>input = [CHR 0x22, CHR ''a'', CHR ''b''], position = 0, line = 1, column = 1\<rparr>"
    by (simp add: l_def Lexer_new_def)
  have h: "l = skipWhitespace l" unfolding l by code_simp
  have pos: "position l < length (input l) \<and> peek l = CHR 0x22" by (simp add: l peek_def)
  have nf: "CHR 0x00 \<notin> set (input l)" by (simp add: l)
  have nq: "CHR 0x22 \<notin> set (drop (position l + 1) (input l))" by (simp add: l)
  have r: "remaining l = 3" by (simp add: l remaining_def)
  have d: "drop (position l + 1) (input l) = ''ab''" "length (input l) = 3" by (simp_all add: l)
  note inst = C8_nextToken [OF h]
  have "ttype (fst (nextToken l)) = STRING" using inst pos by blast
  moreover have "tvalue (fst (nextToken l)) = drop (position l + 1) (input l)"
    using inst pos nf nq by blast
  moreover have "position (snd (nextToken l)) = length (input l)"
    using inst pos nf nq by blast
  moreover have "\<exists>n\<le>remaining l.
      ttype (fst (nextToken (((\<lambda>x. snd (nextToken x)) ^^ n) l))) = EOF_TOKEN"
    using inst nf by blast
  ultimately show ?thesis unfolding d r unfolding l_def by blast
qed

text \<open>
  C9. After \<^verbatim>\<open>0x\<close> or \<^verbatim>\<open>0X\<close> with no hexadecimal digit behind it, \<^verbatim>\<open>nextToken\<close> returns a
  number token with empty text; \<^verbatim>\<open>parseValue\<close> on such a token fails with the
  \<^verbatim>\<open>std::invalid_argument\<close> of \<^verbatim>\<open>stoll\<close>, which is none of the errors the parser throws
  itself (syntax errors, the unknown constant) and not the \<^verbatim>\<open>std::out_of_range\<close> of an
  overflow. So does the parse of \<^verbatim>\<open>x = 0x\<close>.
\<close>

theorem C9_prefix_without_digits:
  assumes "l' = skipWhitespace l"
    "peek l' = CHR ''0''" "position l' + 1 < length (input l')"
    "input l' ! (position l' + 1) = CHR ''x'' \<or> input l' ! (position l' + 1) = CHR ''X''"
    "position l' + 2 < length (input l') \<longrightarrow> \<not> isHexDigit (input l' ! (position l' + 2))"
    "currentToken p = fst (nextToken l)"
  shows
    "ttype (fst (nextToken l)) = NUMBER \<and> tvalue (fst (nextToken l)) = [] \<and>
     parseValue p = Inl InvalidArgument \<and>
     parse_text ''x = 0x'' = Inl InvalidArgument \<and>
     parse_text ''x = 0X'' = Inl InvalidArgument \<and>
     (\<forall>ln col expected got. InvalidArgument \<noteq> SyntaxError ln col expected got) \<and>
     (\<forall>name. InvalidArgument \<noteq> UnknownConstant name) \<and>
     (\<forall>text ln. InvalidArgument \<noteq> UnexpectedValueToken text ln) \<and>
     InvalidArgument \<noteq> ExpectedIdentifier \<and>
     (\<forall>text ln. InvalidArgument \<noteq> UnexpectedToken text ln) \<and>
     InvalidArgument \<noteq> OutOfRange"
proof -
  have pos: "position l' < length (input l')" using assms(3) by simp
  have ns: "numberStart l'" using assms(2,3,4) by (simp add: numberStart_def)
  define l1 where "l1 = snd (advance l')"
  define l2 where "l2 = snd (advance l1)"
  have p1: "position l1 = position l' + 1" "input l1 = input l'"
    using assms(2) by (simp_all add: l1_def advance_position)
  have "peek l1 = input l' ! (position l' + 1)"
    using p1 assms(3) by (simp add: peek_def)
  then have "peek l1 \<noteq> CHR 0x00" using assms(4) by auto
  then have p2: "position l2 = position l' + 2" "input l2 = input l'"
    using p1 by (simp_all add: l2_def advance_position)
  have "\<not> (position l2 < length (input l2) \<and> isHexDigit (peek l2))"
    using p2 assms(5) by (auto simp: peek_def)
  then have rn: "readNumber [] l2 = ([], l2)" by (rule readNumber_stop)
  have inp: "input l' = input l" by (simp add: assms(1))
  have tok: "ttype (fst (nextToken l)) = NUMBER" "tvalue (fst (nextToken l)) = []"
    using nextToken_number [of l] pos ns rn inp
    by (simp_all add: assms(1) [symmetric] l1_def [symmetric] l2_def [symmetric])
  have "stoll16 [] = Inl InvalidArgument" by (simp add: stoll16_def)
  then have "parseValue p = Inl InvalidArgument"
    using tok assms(6) by (simp add: parseValue.simps [of p])
  moreover have "parse_text ''x = 0x'' = Inl InvalidArgument" by code_simp
  moreover have "parse_text ''x = 0X'' = Inl InvalidArgument" by code_simp
  ultimately show ?thesis using tok by simp
qed

theorem C9_prefix_without_digits_witness:
  "ttype (fst (nextToken (Lexer_new '' 0x;''))) = NUMBER \<and>
   tvalue (fst (nextToken (Lexer_new '' 0x;''))) = [] \<and>
   parseValue (Parser_new (Lexer_new '' 0x;'')) = Inl InvalidArgument"
proof -
  define l' where "l' = skipWhitespace (Lexer_new '' 0x;'')"
  have l': "l' = \<lparr>input = '' 0x;'', position = 1, line = 1, column = 2\<rparr>"
    unfolding l'_def by code_simp
  have h1: "l' = skipWhitespace (Lexer_new '' 0x;'')" by (simp add: l'_def)
  have h2: "peek l' = CHR ''0''" by (simp add: l' peek_def)
  have h3: "position l' + 1 < length (input l')" by (simp add: l')
  have h4: "input l' ! (position l' + 1) = CHR ''x'' \<or> input l' ! (position l' + 1) = CHR ''X''"
    by (simp add: l')
  have h5: "position l' + 2 < length (input l') \<longrightarrow> \<not> isHexDigit (input l' ! (position l' + 2))"
    by (simp add: l' isHexDigit_def isdigit_def)
  have h6: "currentToken (Parser_new (Lexer_new '' 0x;'')) = fst (nextToken (Lexer_new '' 0x;''))"
    by (simp add: Parser_new_def)
  from C9_prefix_without_digits [OF h1 h2 h3 h4 h5 h6] show ?thesis by blast
qed

text \<open>
  C10. Every number in the tree of a successful parse is between 0 and 2^63 - 1: the lexer
  gives a number token hexadecimal digits only, so \<^verbatim>\<open>stoll\<close> never sees a sign.
\<close>

theorem C10_numbers_nonnegative:
  assumes "parse_text text = Inr root" "NumberNode a v \<in> set (subnodes root)"
  shows "0 \<le> sint v \<and> sint v \<le> 2 ^ 63 - 1"
proof -
  have "wellformed (NumberNode a v)"
    using parse_text_wellformed [OF assms(1)] assms(2) by (rule wellformed_subnodes)
  moreover have "sint v < 2 ^ 63" using sint_lt [of v] by simp
  ultimately show ?thesis by simp
qed

theorem C10_numbers_nonnegative_witness:
  "parse_text ''port = 0x1A'' = Inr (ObjectNode 0 [(''port'', NumberNode 1 26)]) \<and>
   NumberNode 1 26 \<in> set (subnodes (ObjectNode 0 [(''port'', NumberNode 1 26)])) \<and>
   0 \<le> sint (26 :: 64 word) \<and> sint (26 :: 64 word) \<le> 2 ^ 63 - 1"
proof -
  have h1: "parse_text ''port = 0x1A'' = Inr (ObjectNode 0 [(''port'', NumberNode 1 26)])"
    by code_simp
  have h2: "NumberNode 1 26 \<in> set (subnodes (ObjectNode 0 [(''port'', NumberNode 1 26)]))"
    by simp
  from C10_numbers_nonnegative [OF h1 h2] h1 h2 show ?thesis by blast
qed

end
